theory Spec2Isabelle
  imports Complex_Main "HOL-Library.Stream" "HOL-Library.AList"
begin

section \<open>Conventions of the embedding\<close>

text \<open>
  The program is a genetic algorithm that assigns a room, a time slot and a facilitator to
  each of eleven activities. The embedding follows the Python modules under \<^verbatim>\<open>gen/\<close>:
  \<^item> a Python \<^verbatim>\<open>float\<close> is a \<^typ>\<open>real\<close>: comparisons and the structure of the
    arithmetic are kept, the rounding of IEEE doubles is not, except for the underflow of
    \<^verbatim>\<open>math.exp\<close> to zero, which decides the sign of a selection weight;
  \<^item> a Python \<^verbatim>\<open>int\<close> is an \<^typ>\<open>int\<close>;
  \<^item> a \<^verbatim>\<open>str\<close> that may be \<^verbatim>\<open>None\<close> is a \<^typ>\<open>string option\<close>;
  \<^item> a \<^verbatim>\<open>dict\<close> is an association list in insertion order;
  \<^item> an exception is the left summand of a result;
  \<^item> \<^verbatim>\<open>ActivityAssignment\<close> objects are mutated in place and copied, so they live in an
    explicit store and a schedule holds their addresses;
  \<^item> the module \<^verbatim>\<open>random\<close> is an oracle: a stream of natural numbers, one consumed by every
    call.
\<close>

datatype error = ValueError | KeyError | IndexError

definition bind_result :: "error + 'a \<Rightarrow> ('a \<Rightarrow> error + 'b) \<Rightarrow> error + 'b" where
  "bind_result m f = (case m of Inl e \<Rightarrow> Inl e | Inr x \<Rightarrow> f x)"

text \<open>Truth value of an optional string: \<^verbatim>\<open>None\<close> and the empty string are false.\<close>

definition truthy :: "string option \<Rightarrow> bool" where
  "truthy x = (case x of None \<Rightarrow> False | Some s \<Rightarrow> s \<noteq> [])"

text \<open>Subscription \<^verbatim>\<open>d[k]\<close> of a dictionary raises \<^verbatim>\<open>KeyError\<close> on a missing key.\<close>

definition subscript :: "('k \<times> 'v) list \<Rightarrow> 'k \<Rightarrow> error + 'v" where
  "subscript d k = (case map_of d k of None \<Rightarrow> Inl KeyError | Some v \<Rightarrow> Inr v)"

text \<open>\<^verbatim>\<open>d.get(k, default)\<close>.\<close>

definition get_default :: "('k \<times> 'v) list \<Rightarrow> 'k \<Rightarrow> 'v \<Rightarrow> 'v" where
  "get_default d k v0 = (case map_of d k of None \<Rightarrow> v0 | Some v \<Rightarrow> v)"

text \<open>The slice \<^verbatim>\<open>xs[:k]\<close>: a negative bound counts from the end.\<close>

definition slice_to :: "int \<Rightarrow> 'a list \<Rightarrow> 'a list" where
  "slice_to k xs = (if 0 \<le> k then take (nat k) xs else take (nat (int (length xs) + k)) xs)"

section \<open>The random oracle\<close>

type_synonym rng = "nat stream"

text \<open>\<^verbatim>\<open>random.random()\<close>: a double in [0, 1) with 53 random bits.\<close>

definition random_random :: "rng \<Rightarrow> real \<times> rng" where
  "random_random g = (real (shd g mod 2 ^ 53) / 2 ^ 53, stl g)"

text \<open>\<^verbatim>\<open>random.randint(a, b)\<close>: an integer of the closed range, \<^verbatim>\<open>ValueError\<close> on an empty one.\<close>

definition random_randint :: "int \<Rightarrow> int \<Rightarrow> rng \<Rightarrow> error + (int \<times> rng)" where
  "random_randint a b g =
     (if b < a then Inl ValueError
      else Inr (a + int (shd g mod nat (b - a + 1)), stl g))"

text \<open>\<^verbatim>\<open>random.choice(seq)\<close>: an element of the sequence, \<^verbatim>\<open>IndexError\<close> on an empty one.\<close>

definition random_choice :: "'a list \<Rightarrow> rng \<Rightarrow> error + ('a \<times> rng)" where
  "random_choice xs g =
     (if xs = [] then Inl IndexError
      else Inr (xs ! (shd g mod length xs), stl g))"

section \<open>constants.py\<close>

definition ALL_FACILITATORS :: "string list" where
  "ALL_FACILITATORS =
     [''Lock'', ''Glen'', ''Banks'', ''Richards'', ''Shaw'',
      ''Singer'', ''Uther'', ''Tyler'', ''Numen'', ''Zeldin'']"

definition ALL_TIME_SLOTS :: "string list" where
  "ALL_TIME_SLOTS = [''10 AM'', ''11 AM'', ''12 PM'', ''1 PM'', ''2 PM'', ''3 PM'']"

definition ROOMS_WITH_CAPACITIES :: "(string \<times> int) list" where
  "ROOMS_WITH_CAPACITIES =
     [(''Beach 201'', 18), (''Beach 301'', 25), (''Frank 119'', 95),
      (''Loft 206'', 55), (''Loft 310'', 48), (''James 325'', 110),
      (''Roman 201'', 40), (''Roman 216'', 80), (''Slater 003'', 32)]"

record activity_info =
  expected_enrollment :: int
  preferred_facilitators :: "string list"
  acceptable_facilitators :: "string list"

definition ACTIVITY_DEFINITIONS :: "(string \<times> activity_info) list" where
  "ACTIVITY_DEFINITIONS =
     [(''SLA101A'', \<lparr>expected_enrollment = 40,
         preferred_facilitators = [''Glen'', ''Lock'', ''Banks''],
         acceptable_facilitators = [''Numen'', ''Richards'', ''Shaw'', ''Singer'']\<rparr>),
      (''SLA101B'', \<lparr>expected_enrollment = 35,
         preferred_facilitators = [''Glen'', ''Lock'', ''Banks''],
         acceptable_facilitators = [''Numen'', ''Richards'', ''Shaw'', ''Singer'']\<rparr>),
      (''SLA191A'', \<lparr>expected_enrollment = 45,
         preferred_facilitators = [''Glen'', ''Lock'', ''Banks''],
         acceptable_facilitators = [''Numen'', ''Richards'', ''Shaw'', ''Singer'']\<rparr>),
      (''SLA191B'', \<lparr>expected_enrollment = 40,
         preferred_facilitators = [''Glen'', ''Lock'', ''Banks''],
         acceptable_facilitators = [''Numen'', ''Richards'', ''Shaw'', ''Singer'']\<rparr>),
      (''SLA201'', \<lparr>expected_enrollment = 60,
         preferred_facilitators = [''Glen'', ''Banks'', ''Zeldin'', ''Lock'', ''Singer''],
         acceptable_facilitators = [''Richards'', ''Uther'', ''Shaw'']\<rparr>),
      (''SLA291'', \<lparr>expected_enrollment = 50,
         preferred_facilitators = [''Glen'', ''Banks'', ''Zeldin'', ''Lock'', ''Singer''],
         acceptable_facilitators = [''Richards'', ''Uther'', ''Shaw'']\<rparr>),
      (''SLA303'', \<lparr>expected_enrollment = 25,
         preferred_facilitators = [''Glen'', ''Zeldin''],
         acceptable_facilitators = [''Banks'']\<rparr>),
      (''SLA304'', \<lparr>expected_enrollment = 20,
         preferred_facilitators = [''Singer'', ''Uther''],
         acceptable_facilitators = [''Richards'']\<rparr>),
      (''SLA394'', \<lparr>expected_enrollment = 15,
         preferred_facilitators = [''Tyler'', ''Singer''],
         acceptable_facilitators = [''Richards'', ''Zeldin'']\<rparr>),
      (''SLA449'', \<lparr>expected_enrollment = 30,
         preferred_facilitators = [''Tyler'', ''Zeldin'', ''Uther''],
         acceptable_facilitators = [''Zeldin'', ''Shaw'']\<rparr>),
      (''SLA451'', \<lparr>expected_enrollment = 90,
         preferred_facilitators = [''Lock'', ''Banks'', ''Zeldin''],
         acceptable_facilitators = [''Tyler'', ''Singer'', ''Shaw'', ''Glen'']\<rparr>)]"

definition ALL_ACTIVITIES :: "string list" where
  "ALL_ACTIVITIES = map fst ACTIVITY_DEFINITIONS"

definition SLA101_SECTIONS :: "string \<times> string" where
  "SLA101_SECTIONS = (''SLA101A'', ''SLA101B'')"

definition SLA191_SECTIONS :: "string \<times> string" where
  "SLA191_SECTIONS = (''SLA191A'', ''SLA191B'')"

definition CROSS_SECTION_PAIRS :: "(string \<times> string) list" where
  "CROSS_SECTION_PAIRS =
     [(''SLA101A'', ''SLA191A''), (''SLA101A'', ''SLA191B''),
      (''SLA101B'', ''SLA191A''), (''SLA101B'', ''SLA191B'')]"

section \<open>models.py\<close>

record ActivityAssignment =
  room :: "string option"
  time :: "string option"
  facilitator :: "string option"

text \<open>The store of assignment objects: an address is a natural number, \<open>next_ref\<close> is the
  first address not yet allocated.\<close>

type_synonym ref = nat

record heap =
  cells :: "ref \<Rightarrow> ActivityAssignment"
  next_ref :: ref

definition alloc :: "ActivityAssignment \<Rightarrow> heap \<Rightarrow> ref \<times> heap" where
  "alloc a h = (next_ref h, h\<lparr>cells := (cells h)(next_ref h := a), next_ref := Suc (next_ref h)\<rparr>)"

text \<open>\<^verbatim>\<open>ActivityAssignment.copy\<close>: a new object with the same three fields.\<close>

definition copy_assignment :: "ref \<Rightarrow> heap \<Rightarrow> ref \<times> heap" where
  "copy_assignment r h =
     alloc \<lparr>room = room (cells h r), time = time (cells h r),
            facilitator = facilitator (cells h r)\<rparr> h"

text \<open>The dictionary of violation counts, with its thirteen fixed keys.\<close>

record violation_counts =
  room_conflicts :: int
  room_too_small :: int
  room_too_big_15 :: int
  room_too_big_30 :: int
  facilitator_overload :: int
  facilitator_underload :: int
  facilitator_same_time_conflict :: int
  sla101_same_time :: int
  sla191_same_time :: int
  sla101_191_same_time :: int
  sla101_191_building_mismatch :: int
  sla101_191_one_hour_gap :: int
  sla101_191_consecutive_pair :: int

record Schedule =
  assignments :: "(string \<times> ref) list"
  fitness :: "real option"
  violations :: "violation_counts option"

text \<open>\<^verbatim>\<open>Schedule(assignments_dict)\<close> with a dictionary: both caches start unset.\<close>

definition new_Schedule :: "(string \<times> ref) list \<Rightarrow> Schedule" where
  "new_Schedule d = \<lparr>assignments = d, fitness = None, violations = None\<rparr>"

text \<open>\<^verbatim>\<open>Schedule.create_copy\<close>: every assignment is copied in dictionary order, the fitness
  cache is carried over, the violation cache is not.\<close>

fun copy_assignments :: "(string \<times> ref) list \<Rightarrow> heap \<Rightarrow> (string \<times> ref) list \<times> heap" where
  "copy_assignments [] h = ([], h)"
| "copy_assignments ((name, r) # rest) h =
     (let (r', h1) = copy_assignment r h;
          (rest', h2) = copy_assignments rest h1
      in ((name, r') # rest', h2))"

definition create_copy :: "Schedule \<Rightarrow> heap \<Rightarrow> Schedule \<times> heap" where
  "create_copy s h =
     (let (copied_assignments, h') = copy_assignments (assignments s) h
      in ((new_Schedule copied_assignments)\<lparr>fitness := fitness s\<rparr>, h'))"

text \<open>The assignments of a schedule as values: what \<^verbatim>\<open>schedule.assignments.items()\<close>
  yields when each object is read in the store.\<close>

definition items :: "heap \<Rightarrow> Schedule \<Rightarrow> (string \<times> ActivityAssignment) list" where
  "items h s = map (\<lambda>(name, r). (name, cells h r)) (assignments s)"

section \<open>genetic_operators.py\<close>

text \<open>The loop of \<^verbatim>\<open>perform_single_point_crossover\<close> over \<^verbatim>\<open>enumerate(ALL_ACTIVITIES)\<close>:
  \<open>index\<close> is the position of the first name of the list.\<close>

fun single_point_loop ::
  "int \<Rightarrow> Schedule \<Rightarrow> Schedule \<Rightarrow> int \<Rightarrow> string list \<Rightarrow> heap
     \<Rightarrow> error + ((string \<times> ref) list \<times> heap)" where
  "single_point_loop crossover_point parent_1 parent_2 index [] h = Inr ([], h)"
| "single_point_loop crossover_point parent_1 parent_2 index (activity_name # rest) h =
     bind_result
       (subscript (assignments (if index \<le> crossover_point then parent_1 else parent_2))
          activity_name)
       (\<lambda>r. let (r', h1) = copy_assignment r h in
          bind_result (single_point_loop crossover_point parent_1 parent_2 (index + 1) rest h1)
            (\<lambda>(child_rest, h2). Inr ((activity_name, r') # child_rest, h2)))"

definition perform_single_point_crossover ::
  "Schedule \<Rightarrow> Schedule \<Rightarrow> heap \<Rightarrow> rng \<Rightarrow> error + (Schedule \<times> heap \<times> rng)" where
  "perform_single_point_crossover parent_1 parent_2 h g =
     bind_result (random_randint 0 (int (length ALL_ACTIVITIES) - 1) g)
       (\<lambda>(crossover_point, g1).
          bind_result (single_point_loop crossover_point parent_1 parent_2 0 ALL_ACTIVITIES h)
            (\<lambda>(child_assignments, h1). Inr (new_Schedule child_assignments, h1, g1)))"

fun uniform_loop ::
  "real \<Rightarrow> Schedule \<Rightarrow> Schedule \<Rightarrow> string list \<Rightarrow> heap \<Rightarrow> rng
     \<Rightarrow> error + ((string \<times> ref) list \<times> heap \<times> rng)" where
  "uniform_loop crossover_probability parent_1 parent_2 [] h g = Inr ([], h, g)"
| "uniform_loop crossover_probability parent_1 parent_2 (activity_name # rest) h g =
     (let (u, g1) = random_random g in
      bind_result
        (subscript (assignments (if u < crossover_probability then parent_2 else parent_1))
           activity_name)
        (\<lambda>r. let (r', h1) = copy_assignment r h in
           bind_result (uniform_loop crossover_probability parent_1 parent_2 rest h1 g1)
             (\<lambda>(child_rest, h2, g2). Inr ((activity_name, r') # child_rest, h2, g2))))"

definition perform_uniform_crossover ::
  "Schedule \<Rightarrow> Schedule \<Rightarrow> real \<Rightarrow> heap \<Rightarrow> rng \<Rightarrow> error + (Schedule \<times> heap \<times> rng)" where
  "perform_uniform_crossover parent_1 parent_2 crossover_probability h g =
     bind_result (uniform_loop crossover_probability parent_1 parent_2 ALL_ACTIVITIES h g)
       (\<lambda>(child_assignments, h1, g1). Inr (new_Schedule child_assignments, h1, g1))"

text \<open>One field of one assignment in \<^verbatim>\<open>apply_mutation\<close>: a draw decides whether the field is
  replaced by a random element of its domain.\<close>

definition mutate_field ::
  "real \<Rightarrow> string list \<Rightarrow> (string option \<Rightarrow> ActivityAssignment \<Rightarrow> ActivityAssignment)
     \<Rightarrow> ref \<Rightarrow> heap \<Rightarrow> rng \<Rightarrow> error + (heap \<times> rng)" where
  "mutate_field mutation_probability domain set_field r h g =
     (let (u, g1) = random_random g in
      if u < mutation_probability then
        bind_result (random_choice domain g1)
          (\<lambda>(v, g2). Inr (h\<lparr>cells := (cells h)(r := set_field (Some v) (cells h r))\<rparr>, g2))
      else Inr (h, g1))"

fun mutation_loop ::
  "real \<Rightarrow> (string \<times> ref) list \<Rightarrow> heap \<Rightarrow> rng \<Rightarrow> error + (heap \<times> rng)" where
  "mutation_loop mutation_probability [] h g = Inr (h, g)"
| "mutation_loop mutation_probability ((activity_name, r) # rest) h g =
     bind_result
       (mutate_field mutation_probability (map fst ROOMS_WITH_CAPACITIES)
          (\<lambda>v a. a\<lparr>room := v\<rparr>) r h g)
       (\<lambda>(h1, g1).
          bind_result
            (mutate_field mutation_probability ALL_TIME_SLOTS (\<lambda>v a. a\<lparr>time := v\<rparr>) r h1 g1)
            (\<lambda>(h2, g2).
               bind_result
                 (mutate_field mutation_probability ALL_FACILITATORS
                    (\<lambda>v a. a\<lparr>facilitator := v\<rparr>) r h2 g2)
                 (\<lambda>(h3, g3). mutation_loop mutation_probability rest h3 g3)))"

text \<open>\<^verbatim>\<open>apply_mutation\<close> changes the assignment objects in place, then clears the fitness
  cache of the schedule and returns the schedule. It has no statement for the violation
  cache. The source loops over the keys of the dictionary and subscripts it at each key;
  the keys of a dictionary are distinct, so the loop here runs over its entries.\<close>

definition apply_mutation ::
  "Schedule \<Rightarrow> real \<Rightarrow> heap \<Rightarrow> rng \<Rightarrow> error + (Schedule \<times> heap \<times> rng)" where
  "apply_mutation schedule mutation_probability h g =
     bind_result (mutation_loop mutation_probability (assignments schedule) h g)
       (\<lambda>(h1, g1). Inr (schedule\<lparr>fitness := None\<rparr>, h1, g1))"

section \<open>fitness_evaluator.py\<close>

type_synonym item = "string \<times> ActivityAssignment"

text \<open>\<^verbatim>\<open>_time_slot_indices\<close>: the position of every time slot in \<^verbatim>\<open>ALL_TIME_SLOTS\<close>.\<close>

definition time_slot_indices :: "(string \<times> int) list" where
  "time_slot_indices = zip ALL_TIME_SLOTS (map int [0..<length ALL_TIME_SLOTS])"

definition get_optional :: "(string \<times> 'v) list \<Rightarrow> string option \<Rightarrow> 'v option" where
  "get_optional d k = (case k of None \<Rightarrow> None | Some s \<Rightarrow> map_of d s)"

definition calculate_hour_difference :: "string option \<Rightarrow> string option \<Rightarrow> int" where
  "calculate_hour_difference time_slot_1 time_slot_2 =
     (case get_optional time_slot_indices time_slot_1 of
        None \<Rightarrow> 0
      | Some idx1 \<Rightarrow>
          (case get_optional time_slot_indices time_slot_2 of
             None \<Rightarrow> 0
           | Some idx2 \<Rightarrow> \<bar>idx1 - idx2\<bar>))"

definition startswith :: "string \<Rightarrow> string \<Rightarrow> bool" where
  "startswith s p = (take (length p) s = p)"

definition is_room_in_beach_or_roman :: "string option \<Rightarrow> bool" where
  "is_room_in_beach_or_roman room_name =
     (case room_name of
        None \<Rightarrow> False
      | Some s \<Rightarrow> s \<noteq> [] \<and> (startswith s ''Beach'' \<or> startswith s ''Roman''))"

text \<open>The division \<open>capacity / expected\<close> is reached only with \<open>expected \<le> capacity\<close>;
  every expected enrollment of the catalog is positive (lemma \<open>expected_enrollment_pos\<close>
  below), so Python's \<^verbatim>\<open>ZeroDivisionError\<close> has no branch here.\<close>

definition evaluate_room_size :: "string \<Rightarrow> string option \<Rightarrow> real" where
  "evaluate_room_size activity_name room_name =
     (case room_name of
        None \<Rightarrow> 0
      | Some rn \<Rightarrow>
          if rn = [] then 0
          else
            (case map_of ACTIVITY_DEFINITIONS activity_name of
               None \<Rightarrow> 0
             | Some info \<Rightarrow>
                 (let expected = expected_enrollment info;
                      capacity = get_default ROOMS_WITH_CAPACITIES rn 0
                  in if capacity < expected then - 0.5
                     else
                       (let utilization_ratio = real_of_int capacity / real_of_int expected
                        in if utilization_ratio > 3.0 then - 0.4
                           else if utilization_ratio > 1.5 then - 0.2
                           else 0.3))))"

definition evaluate_facilitator_preference :: "string \<Rightarrow> string option \<Rightarrow> real" where
  "evaluate_facilitator_preference activity_name fac =
     (case fac of
        None \<Rightarrow> 0
      | Some f \<Rightarrow>
          if f = [] then 0
          else
            (case map_of ACTIVITY_DEFINITIONS activity_name of
               None \<Rightarrow> 0
             | Some activity_info \<Rightarrow>
                 if f \<in> set (preferred_facilitators activity_info) then 0.5
                 else if f \<in> set (acceptable_facilitators activity_info) then 0.2
                 else - 0.1))"

definition evaluate_section_spacing :: "string \<Rightarrow> string \<Rightarrow> item list \<Rightarrow> error + real" where
  "evaluate_section_spacing section_1 section_2 its =
     bind_result (subscript its section_1) (\<lambda>assign_1.
     bind_result (subscript its section_2) (\<lambda>assign_2.
       Inr (if \<not> truthy (time assign_1) \<or> \<not> truthy (time assign_2) then 0
            else if time assign_1 = time assign_2 then - 0.5
            else if calculate_hour_difference (time assign_1) (time assign_2) > 4 then 0.5
            else 0)))"

definition evaluate_cross_section_interaction ::
  "string \<Rightarrow> string \<Rightarrow> item list \<Rightarrow> error + real" where
  "evaluate_cross_section_interaction section_101 section_191 its =
     bind_result (subscript its section_101) (\<lambda>assign_101.
     bind_result (subscript its section_191) (\<lambda>assign_191.
       Inr (if \<not> truthy (time assign_101) \<or> \<not> truthy (time assign_191) then 0
            else if time assign_101 = time assign_191 then - 0.25
            else
              (let hour_diff = calculate_hour_difference (time assign_101) (time assign_191)
               in if hour_diff = 1 then
                    (if is_room_in_beach_or_roman (room assign_101)
                        \<noteq> is_room_in_beach_or_roman (room assign_191)
                     then 0.5 - 0.4 else 0.5)
                  else if hour_diff = 2 then 0.25
                  else 0))))"

text \<open>\<^verbatim>\<open>d[key] = d.get(key, 0) + 1\<close>.\<close>

definition bump :: "('k \<times> int) list \<Rightarrow> 'k \<Rightarrow> ('k \<times> int) list" where
  "bump d k = AList.update k (get_default d k 0 + 1) d"

text \<open>The first pass of \<^verbatim>\<open>calculate_schedule_fitness\<close> fills three dictionaries in one loop;
  its three statements do not depend on each other, and each is a fold here.\<close>

definition room_time_usage :: "item list \<Rightarrow> ((string option \<times> string option) \<times> int) list" where
  "room_time_usage its =
     foldl (\<lambda>d (activity_name, a).
              if truthy (room a) \<and> truthy (time a) then bump d (room a, time a) else d) [] its"

definition facilitator_time_usage ::
  "item list \<Rightarrow> ((string option \<times> string option) \<times> int) list" where
  "facilitator_time_usage its =
     foldl (\<lambda>d (activity_name, a).
              if truthy (facilitator a) \<and> truthy (time a) then bump d (facilitator a, time a)
              else d) [] its"

definition facilitator_total_load :: "item list \<Rightarrow> (string option \<times> int) list" where
  "facilitator_total_load its =
     foldl (\<lambda>d (activity_name, a).
              if truthy (facilitator a) then bump d (facilitator a) else d) [] its"

text \<open>The five numbered parts of the second pass; the score of an activity is their sum.\<close>

definition room_time_conflict_score ::
  "((string option \<times> string option) \<times> int) list \<Rightarrow> ActivityAssignment \<Rightarrow> real" where
  "room_time_conflict_score usage a =
     (if truthy (room a) \<and> truthy (time a) \<and> get_default usage (room a, time a) 0 > 1
      then - 0.5 else 0)"

definition facilitator_time_score ::
  "((string option \<times> string option) \<times> int) list \<Rightarrow> ActivityAssignment \<Rightarrow> real" where
  "facilitator_time_score usage a =
     (if truthy (facilitator a) \<and> truthy (time a) then
        (let concurrent_count = get_default usage (facilitator a, time a) 0
         in if concurrent_count = 1 then 0.2
            else if concurrent_count > 1 then - 0.2
            else 0)
      else 0)"

definition facilitator_load_score ::
  "(string option \<times> int) list \<Rightarrow> ActivityAssignment \<Rightarrow> real" where
  "facilitator_load_score loads a =
     (if truthy (facilitator a) then
        (let total_load = get_default loads (facilitator a) 0
         in if total_load > 4 then - 0.5
            else if total_load < 3 then
              (if facilitator a = Some ''Tyler'' then
                 (if total_load \<ge> 2 then - 0.4 else 0)
               else - 0.4)
            else 0)
      else 0)"

definition activity_score :: "item list \<Rightarrow> item \<Rightarrow> real" where
  "activity_score its x =
     (case x of (activity_name, a) \<Rightarrow>
        evaluate_room_size activity_name (room a)
        + evaluate_facilitator_preference activity_name (facilitator a)
        + room_time_conflict_score (room_time_usage its) a
        + facilitator_time_score (facilitator_time_usage its) a
        + facilitator_load_score (facilitator_total_load its) a)"

fun cross_section_total :: "(string \<times> string) list \<Rightarrow> item list \<Rightarrow> error + real" where
  "cross_section_total [] its = Inr 0"
| "cross_section_total ((section_101, section_191) # rest) its =
     bind_result (evaluate_cross_section_interaction section_101 section_191 its) (\<lambda>x.
     bind_result (cross_section_total rest its) (\<lambda>y. Inr (x + y)))"

text \<open>The body of \<^verbatim>\<open>calculate_schedule_fitness\<close> after the cache lookup: the score computed
  from the assignments alone.\<close>

definition compute_fitness :: "item list \<Rightarrow> error + real" where
  "compute_fitness its =
     (let total_score = sum_list (map (activity_score its) its) in
      bind_result (evaluate_section_spacing (fst SLA101_SECTIONS) (snd SLA101_SECTIONS) its)
        (\<lambda>s101.
      bind_result (evaluate_section_spacing (fst SLA191_SECTIONS) (snd SLA191_SECTIONS) its)
        (\<lambda>s191.
      bind_result (cross_section_total CROSS_SECTION_PAIRS its)
        (\<lambda>cross. Inr (total_score + s101 + s191 + cross)))))"

text \<open>The cache key is \<^verbatim>\<open>hash(str([(a.room, a.time, a.facilitator) for a in values]))\<close>. Python's
  \<^verbatim>\<open>str\<close> and \<^verbatim>\<open>hash\<close> are not part of the program: their composition is the parameter
  \<open>hs\<close>. The key is computed from the values of the dictionary in its own order; the
  activity names are not part of it.\<close>

type_synonym triple = "string option \<times> string option \<times> string option"

definition triples :: "item list \<Rightarrow> triple list" where
  "triples its = map (\<lambda>(activity_name, a). (room a, time a, facilitator a)) its"

definition calculate_schedule_fitness ::
  "(triple list \<Rightarrow> 'k) \<Rightarrow> heap \<Rightarrow> Schedule \<Rightarrow> ('k \<rightharpoonup> real)
     \<Rightarrow> error + (real \<times> Schedule \<times> ('k \<rightharpoonup> real))" where
  "calculate_schedule_fitness hs h schedule fitness_cache =
     (let cache_key = hs (triples (items h schedule)) in
      case fitness_cache cache_key of
        Some cached \<Rightarrow> Inr (cached, schedule\<lparr>fitness := Some cached\<rparr>, fitness_cache)
      | None \<Rightarrow>
          bind_result (compute_fitness (items h schedule)) (\<lambda>total_score.
            Inr (total_score, schedule\<lparr>fitness := Some total_score\<rparr>,
                 fitness_cache(cache_key \<mapsto> total_score))))"

text \<open>\<^verbatim>\<open>calculate_constraint_violations\<close>. The dictionary of counts starts with every key at
  zero; the three dictionaries of its first pass are filled by the same statements as in
  \<^verbatim>\<open>calculate_schedule_fitness\<close>.\<close>

definition no_violations :: violation_counts where
  "no_violations =
     \<lparr>room_conflicts = 0, room_too_small = 0, room_too_big_15 = 0, room_too_big_30 = 0,
      facilitator_overload = 0, facilitator_underload = 0,
      facilitator_same_time_conflict = 0, sla101_same_time = 0, sla191_same_time = 0,
      sla101_191_same_time = 0, sla101_191_building_mismatch = 0,
      sla101_191_one_hour_gap = 0, sla101_191_consecutive_pair = 0\<rparr>"

definition room_time_counts :: "item list \<Rightarrow> ((string option \<times> string option) \<times> int) list" where
  "room_time_counts its =
     foldl (\<lambda>d (activity_name, a).
              if truthy (room a) \<and> truthy (time a) then bump d (room a, time a) else d) [] its"

definition facilitator_time_counts ::
  "item list \<Rightarrow> ((string option \<times> string option) \<times> int) list" where
  "facilitator_time_counts its =
     foldl (\<lambda>d (activity_name, a).
              if truthy (facilitator a) \<and> truthy (time a) then bump d (facilitator a, time a)
              else d) [] its"

definition facilitator_total_counts :: "item list \<Rightarrow> (string option \<times> int) list" where
  "facilitator_total_counts its =
     foldl (\<lambda>d (activity_name, a).
              if truthy (facilitator a) then bump d (facilitator a) else d) [] its"

text \<open>Room size violations of one activity (first pass).\<close>

definition room_size_violation :: "violation_counts \<Rightarrow> item \<Rightarrow> violation_counts" where
  "room_size_violation v x =
     (case x of (activity_name, a) \<Rightarrow>
        (case map_of ACTIVITY_DEFINITIONS activity_name of
           None \<Rightarrow> v
         | Some info \<Rightarrow>
             (case room a of
                None \<Rightarrow> v
              | Some rn \<Rightarrow>
                  if rn = [] then v
                  else
                    (let expected = expected_enrollment info;
                         capacity = get_default ROOMS_WITH_CAPACITIES rn 0
                     in if capacity < expected
                        then v\<lparr>room_too_small := room_too_small v + 1\<rparr>
                        else if capacity > 0 \<and> expected > 0 then
                          (let ratio = real_of_int capacity / real_of_int expected
                           in if ratio > 3.0
                              then v\<lparr>room_too_big_30 := room_too_big_30 v + 1\<rparr>
                              else if ratio > 1.5
                              then v\<lparr>room_too_big_15 := room_too_big_15 v + 1\<rparr>
                              else v)
                        else v))))"

text \<open>Second pass: \<^verbatim>\<open>for count in d.values(): if count > 1: total += count - 1\<close>.\<close>

definition count_conflicts :: "('k \<times> int) list \<Rightarrow> int" where
  "count_conflicts d =
     foldl (\<lambda>total count. if count > 1 then total + (count - 1) else total) 0 (map snd d)"

definition load_violation :: "violation_counts \<Rightarrow> string option \<times> int \<Rightarrow> violation_counts" where
  "load_violation v x =
     (case x of (fac, total_load) \<Rightarrow>
        if total_load > 4 then v\<lparr>facilitator_overload := facilitator_overload v + 1\<rparr>
        else if total_load < 3 then
          (if fac = Some ''Tyler'' then
             (if total_load \<ge> 2 then v\<lparr>facilitator_underload := facilitator_underload v + 1\<rparr>
              else v)
           else v\<lparr>facilitator_underload := facilitator_underload v + 1\<rparr>)
        else v)"

text \<open>Third pass: the two pairs of sections of one course, then the four cross pairs.\<close>

definition same_time_sections :: "string \<times> string \<Rightarrow> item list \<Rightarrow> error + bool" where
  "same_time_sections sections its =
     bind_result (subscript its (fst sections)) (\<lambda>assign_a.
     bind_result (subscript its (snd sections)) (\<lambda>assign_b.
       Inr (truthy (time assign_a) \<and> truthy (time assign_b) \<and> time assign_a = time assign_b)))"

definition cross_section_violation ::
  "violation_counts \<Rightarrow> ActivityAssignment \<Rightarrow> ActivityAssignment \<Rightarrow> violation_counts" where
  "cross_section_violation v assign_101 assign_191 =
     (if \<not> truthy (time assign_101) \<or> \<not> truthy (time assign_191) then v
      else if time assign_101 = time assign_191
      then v\<lparr>sla101_191_same_time := sla101_191_same_time v + 1\<rparr>
      else
        (let hour_diff = calculate_hour_difference (time assign_101) (time assign_191)
         in if hour_diff = 1 then
              (let v1 = v\<lparr>sla101_191_consecutive_pair := sla101_191_consecutive_pair v + 1\<rparr>
               in if truthy (room assign_101) \<and> truthy (room assign_191)
                     \<and> is_room_in_beach_or_roman (room assign_101)
                         \<noteq> is_room_in_beach_or_roman (room assign_191)
                  then v1\<lparr>sla101_191_building_mismatch := sla101_191_building_mismatch v1 + 1\<rparr>
                  else v1)
            else if hour_diff = 2
            then v\<lparr>sla101_191_one_hour_gap := sla101_191_one_hour_gap v + 1\<rparr>
            else v))"

fun cross_section_violations ::
  "(string \<times> string) list \<Rightarrow> item list \<Rightarrow> violation_counts \<Rightarrow> error + violation_counts" where
  "cross_section_violations [] its v = Inr v"
| "cross_section_violations ((section_101, section_191) # rest) its v =
     bind_result (subscript its section_101) (\<lambda>assign_101.
     bind_result (subscript its section_191) (\<lambda>assign_191.
       cross_section_violations rest its (cross_section_violation v assign_101 assign_191)))"

definition count_violations :: "item list \<Rightarrow> error + violation_counts" where
  "count_violations its =
     (let v1 = foldl room_size_violation no_violations its;
          v2 = v1\<lparr>room_conflicts := room_conflicts v1 + count_conflicts (room_time_counts its)\<rparr>;
          v3 = foldl load_violation v2 (facilitator_total_counts its);
          v4 = v3\<lparr>facilitator_same_time_conflict :=
                    facilitator_same_time_conflict v3
                    + count_conflicts (facilitator_time_counts its)\<rparr>
      in bind_result (same_time_sections SLA101_SECTIONS its) (\<lambda>same_101.
         bind_result (same_time_sections SLA191_SECTIONS its) (\<lambda>same_191.
           cross_section_violations CROSS_SECTION_PAIRS its
             (v4\<lparr>sla101_same_time := sla101_same_time v4 + (if same_101 then 1 else 0),
                 sla191_same_time := sla191_same_time v4 + (if same_191 then 1 else 0)\<rparr>))))"

text \<open>The result is also stored in the violation cache of the schedule.\<close>

definition calculate_constraint_violations ::
  "heap \<Rightarrow> Schedule \<Rightarrow> error + (violation_counts \<times> Schedule)" where
  "calculate_constraint_violations h schedule =
     bind_result (count_violations (items h schedule)) (\<lambda>violation_counts.
       Inr (violation_counts, schedule\<lparr>violations := Some violation_counts\<rparr>))"

section \<open>selection_methods.py\<close>

text \<open>\<^verbatim>\<open>math.exp\<close> of the standard library on doubles. The one effect of the rounding that
  is kept is the underflow: an exponential that is not above half of the smallest positive
  double, \<open>2 ^ - 1074\<close>, is returned as \<open>0.0\<close>, without an exception. The overflow of
  \<^verbatim>\<open>math.exp\<close> (an \<^verbatim>\<open>OverflowError\<close>) needs a positive argument of more than 709, and the
  one call of the program has an argument that is never positive. Sums and quotients are
  those of the reals.\<close>

definition math_exp :: "real \<Rightarrow> real" where
  "math_exp x = (if exp x \<le> 1 / 2 ^ 1075 then 0 else exp x)"

definition calculate_softmax_probabilities :: "real list \<Rightarrow> real list" where
  "calculate_softmax_probabilities fitness_scores =
     (if fitness_scores = [] then []
      else
        (let max_score = Max (set fitness_scores);
             exponentiated_scores = map (\<lambda>score. math_exp (score - max_score)) fitness_scores;
             total_exp = sum_list exponentiated_scores
         in if total_exp = 0
            then replicate (length fitness_scores) (1 / real (length fitness_scores))
            else map (\<lambda>score. score / total_exp) exponentiated_scores))"

text \<open>\<^verbatim>\<open>random.choices(population, weights=w, k=1)[0]\<close> of the standard library: the weights
  are accumulated, their number must be that of the population and their total positive;
  the element is found by bisection of the cumulative weights at \<open>random() * total\<close>,
  among the indices \<open>0 .. n - 1\<close>.\<close>

fun accumulate :: "real \<Rightarrow> real list \<Rightarrow> real list" where
  "accumulate acc [] = []"
| "accumulate acc (w # ws) = (acc + w) # accumulate (acc + w) ws"

definition bisect :: "real list \<Rightarrow> real \<Rightarrow> nat \<Rightarrow> nat" where
  "bisect cum_weights x hi = length (takeWhile (\<lambda>c. c \<le> x) (take hi cum_weights))"

definition random_choices_one :: "'a list \<Rightarrow> real list \<Rightarrow> rng \<Rightarrow> error + ('a \<times> rng)" where
  "random_choices_one population weights g =
     (let cum_weights = accumulate 0 weights; n = length population in
      if length cum_weights \<noteq> n then Inl ValueError
      else if cum_weights = [] then Inl IndexError
      else if last cum_weights \<le> 0 then Inl ValueError
      else
        (let (u, g1) = random_random g
         in Inr (population ! bisect cum_weights (u * last cum_weights) (n - 1), g1)))"

text \<open>\<^verbatim>\<open>for _ in range(number_of_pairs)\<close>: the second argument is the number of rounds left.\<close>

fun select_pairs_loop ::
  "Schedule list \<Rightarrow> real list \<Rightarrow> nat \<Rightarrow> rng \<Rightarrow> error + ((Schedule \<times> Schedule) list \<times> rng)" where
  "select_pairs_loop population selection_probabilities 0 g = Inr ([], g)"
| "select_pairs_loop population selection_probabilities (Suc k) g =
     bind_result (random_choices_one population selection_probabilities g) (\<lambda>(parent_a, g1).
     bind_result (random_choices_one population selection_probabilities g1) (\<lambda>(parent_b, g2).
     bind_result (select_pairs_loop population selection_probabilities k g2)
       (\<lambda>(selected_pairs, g3). Inr ((parent_a, parent_b) # selected_pairs, g3))))"

definition select_parent_pairs ::
  "Schedule list \<Rightarrow> real list \<Rightarrow> int \<Rightarrow> rng \<Rightarrow> error + ((Schedule \<times> Schedule) list \<times> rng)" where
  "select_parent_pairs population selection_probabilities number_of_pairs g =
     select_pairs_loop population selection_probabilities (nat number_of_pairs) g"

fun copy_schedules :: "Schedule list \<Rightarrow> heap \<Rightarrow> Schedule list \<times> heap" where
  "copy_schedules [] h = ([], h)"
| "copy_schedules (schedule # rest) h =
     (let (c, h1) = create_copy schedule h;
          (cs, h2) = copy_schedules rest h1
      in (c # cs, h2))"

text \<open>\<^verbatim>\<open>select_best_schedules\<close>: the pairs are sorted by fitness, largest first (Python's sort
  is stable, also with \<^verbatim>\<open>reverse=True\<close>), the first \<open>number_to_select\<close> are copied.\<close>

definition select_best_schedules ::
  "Schedule list \<Rightarrow> real list \<Rightarrow> int \<Rightarrow> heap \<Rightarrow> Schedule list \<times> heap" where
  "select_best_schedules population fitness_scores number_to_select h =
     (let schedule_fitness_pairs = sort_key (\<lambda>pair. - snd pair) (zip population fitness_scores)
      in copy_schedules (map fst (slice_to number_to_select schedule_fitness_pairs)) h)"

section \<open>population_manager.py\<close>

definition generate_random_assignment :: "heap \<Rightarrow> rng \<Rightarrow> error + (ref \<times> heap \<times> rng)" where
  "generate_random_assignment h g =
     bind_result (random_choice (map fst ROOMS_WITH_CAPACITIES) g) (\<lambda>(random_room, g1).
     bind_result (random_choice ALL_TIME_SLOTS g1) (\<lambda>(random_time, g2).
     bind_result (random_choice ALL_FACILITATORS g2) (\<lambda>(random_facilitator, g3).
       (let (r, h1) = alloc \<lparr>room = Some random_room, time = Some random_time,
                              facilitator = Some random_facilitator\<rparr> h
        in Inr (r, h1, g3)))))"

fun random_assignments ::
  "string list \<Rightarrow> heap \<Rightarrow> rng \<Rightarrow> error + ((string \<times> ref) list \<times> heap \<times> rng)" where
  "random_assignments [] h g = Inr ([], h, g)"
| "random_assignments (activity_name # rest) h g =
     bind_result (generate_random_assignment h g) (\<lambda>(r, h1, g1).
     bind_result (random_assignments rest h1 g1) (\<lambda>(assignments_rest, h2, g2).
       Inr ((activity_name, r) # assignments_rest, h2, g2)))"

definition generate_random_schedule :: "heap \<Rightarrow> rng \<Rightarrow> error + (Schedule \<times> heap \<times> rng)" where
  "generate_random_schedule h g =
     bind_result (random_assignments (map fst ACTIVITY_DEFINITIONS) h g)
       (\<lambda>(assignments_collection, h1, g1). Inr (new_Schedule assignments_collection, h1, g1))"

fun population_loop :: "nat \<Rightarrow> heap \<Rightarrow> rng \<Rightarrow> error + (Schedule list \<times> heap \<times> rng)" where
  "population_loop 0 h g = Inr ([], h, g)"
| "population_loop (Suc k) h g =
     bind_result (generate_random_schedule h g) (\<lambda>(schedule, h1, g1).
     bind_result (population_loop k h1 g1) (\<lambda>(population, h2, g2).
       Inr (schedule # population, h2, g2)))"

definition create_initial_population ::
  "int \<Rightarrow> heap \<Rightarrow> rng \<Rightarrow> error + (Schedule list \<times> heap \<times> rng)" where
  "create_initial_population population_size h g =
     (if population_size < 250 then Inl ValueError
      else population_loop (nat population_size) h g)"

section \<open>algorithm_engine.py\<close>

text \<open>The keyword arguments of \<^verbatim>\<open>run_optimization\<close>.\<close>

record config =
  population_size :: int
  minimum_generations :: int
  maximum_generations :: int
  initial_mutation_probability :: real
  crossover_method :: string
  elitism_count :: int
  use_adaptive_mutation :: bool

record generation_record =
  generation :: int
  best :: real
  avg :: real
  worst :: real
  improvement :: "real option"
  mutation_rate :: real

text \<open>The variables of the evolution loop, with the store, the oracle and the cache of the
  global \<^verbatim>\<open>fitness_calculator\<close>.\<close>

record 'k loop_state =
  current_population :: "Schedule list"
  current_mutation_rate :: real
  generation_history :: "generation_record list"
  total_generations_run :: int
  previous_average_fitness :: "real option"
  store :: heap
  random_state :: rng
  fitness_cache :: "'k \<rightharpoonup> real"

text \<open>The dictionary of results. The last two fields are not part of it: they are the
  population and the store at the end of the run, kept for the statements about them.\<close>

record run_result =
  best_schedule :: Schedule
  history :: "generation_record list"
  final_mutation_rate :: real
  generations_run :: int
  final_best :: real
  final_average :: real
  final_worst :: real
  final_population :: "Schedule list"
  final_store :: heap

fun evaluate_loop ::
  "(triple list \<Rightarrow> 'k) \<Rightarrow> heap \<Rightarrow> Schedule list \<Rightarrow> ('k \<rightharpoonup> real)
     \<Rightarrow> error + (real list \<times> Schedule list \<times> ('k \<rightharpoonup> real))" where
  "evaluate_loop hs h [] cache = Inr ([], [], cache)"
| "evaluate_loop hs h (schedule # rest) cache =
     bind_result (calculate_schedule_fitness hs h schedule cache) (\<lambda>(score, schedule', c1).
     bind_result (evaluate_loop hs h rest c1) (\<lambda>(fitness_scores, rest', c2).
       Inr (score # fitness_scores, schedule' # rest', c2)))"

text \<open>\<^verbatim>\<open>_evaluate_entire_population\<close>: the scores, then the best, the average and the worst of
  them, all zero for an empty population. The schedules come back with their fitness cache
  set.\<close>

definition evaluate_entire_population ::
  "(triple list \<Rightarrow> 'k) \<Rightarrow> heap \<Rightarrow> Schedule list \<Rightarrow> ('k \<rightharpoonup> real)
     \<Rightarrow> error + ((real list \<times> real \<times> real \<times> real) \<times> Schedule list \<times> ('k \<rightharpoonup> real))" where
  "evaluate_entire_population hs h population cache =
     bind_result (evaluate_loop hs h population cache) (\<lambda>(fitness_scores, population', c1).
       if fitness_scores = [] then Inr (([], 0, 0, 0), population', c1)
       else Inr ((fitness_scores, Max (set fitness_scores),
                  sum_list fitness_scores / real (length fitness_scores),
                  Min (set fitness_scores)), population', c1))"

definition improvement_percentage :: "real option \<Rightarrow> real \<Rightarrow> real option" where
  "improvement_percentage previous generation_average =
     (case previous of
        None \<Rightarrow> None
      | Some previous_average \<Rightarrow>
          (let denominator = (if \<bar>previous_average\<bar> > 1 / 10 ^ 9 then \<bar>previous_average\<bar>
                              else 1 / 10 ^ 9)
           in Some ((generation_average - previous_average) / denominator * 100)))"

definition should_terminate :: "config \<Rightarrow> int \<Rightarrow> real option \<Rightarrow> bool" where
  "should_terminate cfg generation_number imp =
     (generation_number + 1 \<ge> minimum_generations cfg
      \<and> (case imp of None \<Rightarrow> False | Some i \<Rightarrow> i < 1.0))"

definition adapt_mutation_rate :: "config \<Rightarrow> int \<Rightarrow> real option \<Rightarrow> real \<Rightarrow> real" where
  "adapt_mutation_rate cfg generation_number imp rate =
     (if use_adaptive_mutation cfg \<and> generation_number > 0 \<and> generation_number mod 20 = 0
      then (case imp of None \<Rightarrow> rate | Some i \<Rightarrow> if i > 0.1 then rate / 2.0 else rate)
      else rate)"

text \<open>Evaluation phase and record of one generation.\<close>

definition evaluate_generation ::
  "(triple list \<Rightarrow> 'k) \<Rightarrow> int \<Rightarrow> 'k loop_state
     \<Rightarrow> error + ('k loop_state \<times> real list \<times> real option)" where
  "evaluate_generation hs generation_number st =
     bind_result
       (evaluate_entire_population hs (store st) (current_population st) (fitness_cache st))
       (\<lambda>((current_fitness_scores, generation_best_fitness, generation_average_fitness,
            generation_worst_fitness), population', cache').
          (let imp = improvement_percentage (previous_average_fitness st)
                       generation_average_fitness;
               generation_record =
                 \<lparr>generation = generation_number, best = generation_best_fitness,
                  avg = generation_average_fitness, worst = generation_worst_fitness,
                  improvement = imp, mutation_rate = current_mutation_rate st\<rparr>
           in Inr (st\<lparr>current_population := population',
                       fitness_cache := cache',
                       total_generations_run := generation_number + 1,
                       previous_average_fitness := Some generation_average_fitness,
                       generation_history := generation_history st @ [generation_record]\<rparr>,
                   current_fitness_scores, imp)))"

text \<open>Crossover and mutation of every pair of parents.\<close>

fun reproduction_loop ::
  "string \<Rightarrow> real \<Rightarrow> (Schedule \<times> Schedule) list \<Rightarrow> heap \<Rightarrow> rng
     \<Rightarrow> error + (Schedule list \<times> heap \<times> rng)" where
  "reproduction_loop method rate [] h g = Inr ([], h, g)"
| "reproduction_loop method rate ((parent_a, parent_b) # rest) h g =
     bind_result
       (if method = ''uniform'' then perform_uniform_crossover parent_a parent_b 0.5 h g
        else perform_single_point_crossover parent_a parent_b h g)
       (\<lambda>(child_schedule, h1, g1).
     bind_result (apply_mutation child_schedule rate h1 g1) (\<lambda>(mutated, h2, g2).
     bind_result (reproduction_loop method rate rest h2 g2) (\<lambda>(offspring_schedules, h3, g3).
       Inr (mutated # offspring_schedules, h3, g3))))"

text \<open>The next generation: the elites, then the offspring, cut or filled to the size of
  the population.\<close>

definition assemble_next_generation ::
  "int \<Rightarrow> Schedule list \<Rightarrow> Schedule list \<Rightarrow> Schedule list" where
  "assemble_next_generation target_size elite_schedules offspring_schedules =
     (let next_generation = elite_schedules @ offspring_schedules in
      if int (length next_generation) > target_size then slice_to target_size next_generation
      else if int (length next_generation) < target_size
      then next_generation
             @ slice_to (target_size - int (length next_generation)) offspring_schedules
      else next_generation)"

text \<open>Adaptation of the mutation rate, selection, reproduction, elitism and assembly: the
  part of the loop body after the termination check.\<close>

definition reproduce_generation ::
  "config \<Rightarrow> int \<Rightarrow> real option \<Rightarrow> real list \<Rightarrow> 'k loop_state \<Rightarrow> error + 'k loop_state" where
  "reproduce_generation cfg generation_number imp current_fitness_scores st =
     (let rate = adapt_mutation_rate cfg generation_number imp (current_mutation_rate st);
          selection_probabilities = calculate_softmax_probabilities current_fitness_scores;
          number_of_parent_pairs = population_size cfg - elitism_count cfg
      in bind_result
           (select_parent_pairs (current_population st) selection_probabilities
              number_of_parent_pairs (random_state st))
           (\<lambda>(parent_combinations, g1).
         bind_result
           (reproduction_loop (crossover_method cfg) rate parent_combinations (store st) g1)
           (\<lambda>(offspring_schedules, h2, g2).
              (let (elite_schedules, h3) =
                     select_best_schedules (current_population st) current_fitness_scores
                       (elitism_count cfg) h2
               in Inr (st\<lparr>current_population :=
                              assemble_next_generation (population_size cfg) elite_schedules
                                offspring_schedules,
                           current_mutation_rate := rate,
                           store := h3,
                           random_state := g2\<rparr>)))))"

text \<open>\<^verbatim>\<open>for generation_number in range(maximum_generations)\<close> with its \<^verbatim>\<open>break\<close>.\<close>

function evolution_loop ::
  "(triple list \<Rightarrow> 'k) \<Rightarrow> config \<Rightarrow> int \<Rightarrow> 'k loop_state \<Rightarrow> error + 'k loop_state" where
  "evolution_loop hs cfg generation_number st =
     (if generation_number < maximum_generations cfg then
        (case evaluate_generation hs generation_number st of
           Inl e \<Rightarrow> Inl e
         | Inr (st1, current_fitness_scores, imp) \<Rightarrow>
             if should_terminate cfg generation_number imp then Inr st1
             else
               (case reproduce_generation cfg generation_number imp current_fitness_scores st1 of
                  Inl e \<Rightarrow> Inl e
                | Inr st2 \<Rightarrow> evolution_loop hs cfg (generation_number + 1) st2))
      else Inr st)"
  by pat_completeness auto
termination
  by (relation "measure (\<lambda>(hs, cfg, generation_number, st).
                  nat (maximum_generations cfg - generation_number))") auto

declare evolution_loop.simps [simp del]

text \<open>\<^verbatim>\<open>max(range(len(population)), key=lambda i: scores[i])\<close>: the first index of a largest
  score, \<^verbatim>\<open>ValueError\<close> on an empty range.\<close>

fun max_index_loop :: "nat \<Rightarrow> real \<Rightarrow> nat \<Rightarrow> real list \<Rightarrow> nat" where
  "max_index_loop best_i best_v i [] = best_i"
| "max_index_loop best_i best_v i (v # vs) =
     (if v > best_v then max_index_loop i v (Suc i) vs
      else max_index_loop best_i best_v (Suc i) vs)"

definition max_index :: "real list \<Rightarrow> error + nat" where
  "max_index scores =
     (case scores of [] \<Rightarrow> Inl ValueError | v # vs \<Rightarrow> Inr (max_index_loop 0 v 1 vs))"

definition run_optimization ::
  "(triple list \<Rightarrow> 'k) \<Rightarrow> config \<Rightarrow> ('k \<rightharpoonup> real) \<Rightarrow> heap \<Rightarrow> rng \<Rightarrow> error + run_result" where
  "run_optimization hs cfg cache h g =
     bind_result (create_initial_population (population_size cfg) h g)
       (\<lambda>(initial_population, h1, g1).
     bind_result
       (evolution_loop hs cfg 0
          \<lparr>current_population = initial_population,
           current_mutation_rate = initial_mutation_probability cfg,
           generation_history = [],
           total_generations_run = 0,
           previous_average_fitness = None,
           store = h1, random_state = g1, fitness_cache = cache\<rparr>)
       (\<lambda>st.
     bind_result
       (evaluate_entire_population hs (store st) (current_population st) (fitness_cache st))
       (\<lambda>((final_fitness_scores, final_best_fitness, final_average_fitness,
            final_worst_fitness), population', cache').
     bind_result (max_index final_fitness_scores) (\<lambda>best_schedule_index.
     bind_result
       (calculate_constraint_violations (store st) (population' ! best_schedule_index))
       (\<lambda>(violation_summary, optimal_schedule).
          Inr \<lparr>best_schedule = optimal_schedule,
               history = generation_history st,
               final_mutation_rate = current_mutation_rate st,
               generations_run = total_generations_run st,
               final_best = final_best_fitness,
               final_average = final_average_fitness,
               final_worst = final_worst_fitness,
               final_population = population'[best_schedule_index := optimal_schedule],
               final_store = store st\<rparr>)))))"

section \<open>Example data and predicates used in the statements\<close>

text \<open>A store holding the given assignment objects at the addresses \<open>0, 1, ...\<close>.\<close>

definition heap_of_list :: "ActivityAssignment list \<Rightarrow> heap" where
  "heap_of_list xs =
     \<lparr>cells = (\<lambda>r. if r < length xs then xs ! r
                     else \<lparr>room = None, time = None, facilitator = None\<rparr>),
      next_ref = length xs\<rparr>"

definition assignment :: "string \<Rightarrow> string \<Rightarrow> string \<Rightarrow> ActivityAssignment" where
  "assignment r t f = \<lparr>room = Some r, time = Some t, facilitator = Some f\<rparr>"

text \<open>A schedule of the eleven activities: three of them share Roman 201 at 10 AM, and
  Tyler has two activities.\<close>

definition example_assignments :: "ActivityAssignment list" where
  "example_assignments =
     [assignment ''Roman 201'' ''10 AM'' ''Glen'',
      assignment ''Roman 201'' ''10 AM'' ''Lock'',
      assignment ''Roman 201'' ''10 AM'' ''Banks'',
      assignment ''Loft 206'' ''11 AM'' ''Glen'',
      assignment ''Frank 119'' ''12 PM'' ''Glen'',
      assignment ''Roman 216'' ''1 PM'' ''Lock'',
      assignment ''Beach 301'' ''2 PM'' ''Lock'',
      assignment ''Beach 201'' ''3 PM'' ''Banks'',
      assignment ''Slater 003'' ''10 AM'' ''Tyler'',
      assignment ''Loft 310'' ''11 AM'' ''Tyler'',
      assignment ''James 325'' ''12 PM'' ''Banks'']"

definition example_heap :: heap where
  "example_heap = heap_of_list example_assignments"

definition example_schedule :: Schedule where
  "example_schedule = new_Schedule (zip ALL_ACTIVITIES [0, 1, 2, 3, 4, 5, 6, 7, 8, 9, 10])"

text \<open>A schedule is complete when its dictionary lists the activities of the catalog, in
  the order of the catalog: every constructor of the program builds such a dictionary.\<close>

definition complete :: "Schedule \<Rightarrow> bool" where
  "complete s = (map fst (assignments s) = ALL_ACTIVITIES)"

text \<open>The objects of a schedule are allocated when their addresses are below \<open>next_ref\<close>.\<close>

definition allocated :: "heap \<Rightarrow> Schedule \<Rightarrow> bool" where
  "allocated h s = (\<forall>r \<in> snd ` set (assignments s). r < next_ref h)"

text \<open>The evaluator subscripts the dictionary of a schedule at the four sections of the
  two courses with several sections.\<close>

definition has_sections :: "item list \<Rightarrow> bool" where
  "has_sections its =
     ({''SLA101A'', ''SLA101B'', ''SLA191A'', ''SLA191B''} \<subseteq> fst ` set its)"

text \<open>The quantities the claims speak of, counted directly on the assignments: the number
  of activities of a facilitator, the number of activities in a room at a time, and the
  pairs of a room and a time that hold an activity.\<close>

definition total_load :: "item list \<Rightarrow> string option \<Rightarrow> int" where
  "total_load its f = int (length (filter (\<lambda>x. facilitator (snd x) = f) its))"

definition occupants :: "item list \<Rightarrow> string option \<times> string option \<Rightarrow> int" where
  "occupants its p = int (length (filter (\<lambda>x. (room (snd x), time (snd x)) = p) its))"

definition occupied_pairs :: "item list \<Rightarrow> (string option \<times> string option) set" where
  "occupied_pairs its =
     set (map (\<lambda>x. (room (snd x), time (snd x)))
            (filter (\<lambda>x. truthy (room (snd x)) \<and> truthy (time (snd x))) its))"

definition facilitators_used :: "item list \<Rightarrow> string option set" where
  "facilitators_used its =
     set (map (\<lambda>x. facilitator (snd x)) (filter (\<lambda>x. truthy (facilitator (snd x))) its))"

text \<open>A second schedule, with the same assignments given to the activities in the reverse
  order, and a store that holds the objects of both schedules.\<close>

definition example_heap_2 :: heap where
  "example_heap_2 = heap_of_list (example_assignments @ rev example_assignments)"

definition example_schedule_2 :: Schedule where
  "example_schedule_2 =
     new_Schedule (zip ALL_ACTIVITIES [11, 12, 13, 14, 15, 16, 17, 18, 19, 20, 21])"

text \<open>The example schedule with the keys SLA101A and SLA451 exchanged in the dictionary:
  the same objects in the same order, given to the activities in another order.\<close>

definition swapped_schedule :: Schedule where
  "swapped_schedule =
     new_Schedule
       (zip [''SLA451'', ''SLA101B'', ''SLA191A'', ''SLA191B'', ''SLA201'', ''SLA291'',
             ''SLA303'', ''SLA304'', ''SLA394'', ''SLA449'', ''SLA101A'']
            [0, 1, 2, 3, 4, 5, 6, 7, 8, 9, 10])"

text \<open>The entries of a fitness cache are sound for a set of evaluated assignments when each
  of them is the score of one of these, stored under its key.\<close>

definition cache_sound :: "(triple list \<Rightarrow> 'k) \<Rightarrow> ('k \<rightharpoonup> real) \<Rightarrow> item list set \<Rightarrow> bool" where
  "cache_sound hs cache seen =
     (\<forall>k v. cache k = Some v \<longrightarrow>
        (\<exists>its \<in> seen. hs (triples its) = k \<and> compute_fitness its = Inr v))"

text \<open>The population of a loop state is well formed for a configuration when it has the
  configured size and every schedule in it is complete.\<close>

definition population_ok :: "config \<Rightarrow> Schedule list \<Rightarrow> bool" where
  "population_ok cfg population =
     (int (length population) = population_size cfg \<and> (\<forall>s \<in> set population. complete s))"

text \<open>The records that the loop appends when it starts at generation \<open>g\<close> with the
  mutation rate \<open>rate\<close> and the previous average \<open>prev\<close>, and the mutation rate \<open>final\<close>
  with which it ends: the course of the loop, read from its body.\<close>

fun trace_from ::
  "config \<Rightarrow> int \<Rightarrow> real \<Rightarrow> real option \<Rightarrow> generation_record list \<Rightarrow> real \<Rightarrow> bool" where
  "trace_from cfg g rate prev [] final = (final = rate \<and> \<not> g < maximum_generations cfg)"
| "trace_from cfg g rate prev (r # rs) final =
     (g < maximum_generations cfg \<and> generation r = g \<and> mutation_rate r = rate
      \<and> improvement r = improvement_percentage prev (avg r)
      \<and> (if should_terminate cfg g (improvement r) then rs = [] \<and> final = rate
         else trace_from cfg (g + 1) (adapt_mutation_rate cfg g (improvement r) rate)
                (Some (avg r)) rs final))"

text \<open>Configurations: the default arguments of \<^verbatim>\<open>run_optimization\<close>; one with a crossover
  method that is neither of the two and as many elites as schedules; one with a population
  below the minimum.\<close>

definition default_config :: config where
  "default_config =
     \<lparr>population_size = 250, minimum_generations = 100, maximum_generations = 500,
      initial_mutation_probability = 0.01, crossover_method = ''single_point'',
      elitism_count = 1, use_adaptive_mutation = True\<rparr>"

definition unchecked_config :: config where
  "unchecked_config = default_config\<lparr>crossover_method := ''two_point'', elitism_count := 250\<rparr>"

definition small_config :: config where
  "small_config = default_config\<lparr>population_size := 249, crossover_method := ''two_point''\<rparr>"

text \<open>A loop state whose population is 250 times the example schedule.\<close>

definition example_state :: "(triple list) loop_state" where
  "example_state =
     \<lparr>current_population = replicate 250 example_schedule,
      current_mutation_rate = 0.01,
      generation_history = [],
      total_generations_run = 0,
      previous_average_fitness = None,
      store = example_heap, random_state = sconst 0, fitness_cache = Map.empty\<rparr>"

section \<open>Properties of the embedding\<close>

subsection \<open>Results and the random oracle\<close>

lemma bind_result_simps [simp]:
  "bind_result (Inl e) f = Inl e"
  "bind_result (Inr x) f = f x"
  by (simp_all add: bind_result_def)

lemma bind_result_eq_Inr:
  "bind_result m f = Inr y \<longleftrightarrow> (\<exists>x. m = Inr x \<and> f x = Inr y)"
  by (cases m) simp_all

lemma random_choice_nonempty:
  "xs \<noteq> [] \<Longrightarrow> random_choice xs g = Inr (xs ! (shd g mod length xs), stl g)"
  by (simp add: random_choice_def)

lemma catalog_nonempty:
  "map fst ROOMS_WITH_CAPACITIES \<noteq> []" "ALL_TIME_SLOTS \<noteq> []" "ALL_FACILITATORS \<noteq> []"
  by (simp_all add: ROOMS_WITH_CAPACITIES_def ALL_TIME_SLOTS_def ALL_FACILITATORS_def)

lemma ALL_ACTIVITIES_eq:
  "ALL_ACTIVITIES =
     [''SLA101A'', ''SLA101B'', ''SLA191A'', ''SLA191B'', ''SLA201'', ''SLA291'',
      ''SLA303'', ''SLA304'', ''SLA394'', ''SLA449'', ''SLA451'']"
  by (simp add: ALL_ACTIVITIES_def ACTIVITY_DEFINITIONS_def)

lemma length_ALL_ACTIVITIES: "length ALL_ACTIVITIES = 11"
  by (simp add: ALL_ACTIVITIES_eq)

text \<open>No expected enrollment of the catalog is zero, so the ratio of the room size rule is
  never a division by zero.\<close>

lemma expected_enrollment_pos:
  "map_of ACTIVITY_DEFINITIONS name = Some info \<Longrightarrow> 0 < expected_enrollment info"
  by (auto simp: ACTIVITY_DEFINITIONS_def split: if_splits)

subsection \<open>Mutation\<close>

lemma mutate_field_total:
  "domain \<noteq> [] \<Longrightarrow> \<exists>h' g'. mutate_field p domain set_field r h g = Inr (h', g')"
  by (simp add: mutate_field_def random_random_def random_choice_nonempty)

lemma mutation_loop_total:
  "\<exists>h' g'. mutation_loop p d h g = Inr (h', g')"
proof (induction d arbitrary: h g)
  case Nil
  show ?case by simp
next
  case (Cons x d)
  obtain name r where x: "x = (name, r)" by (cases x)
  obtain h1 g1 where s1:
    "mutate_field p (map fst ROOMS_WITH_CAPACITIES) (\<lambda>v a. a\<lparr>room := v\<rparr>) r h g = Inr (h1, g1)"
    using mutate_field_total [OF catalog_nonempty(1)] by blast
  obtain h2 g2 where s2:
    "mutate_field p ALL_TIME_SLOTS (\<lambda>v a. a\<lparr>time := v\<rparr>) r h1 g1 = Inr (h2, g2)"
    using mutate_field_total [OF catalog_nonempty(2)] by blast
  obtain h3 g3 where s3:
    "mutate_field p ALL_FACILITATORS (\<lambda>v a. a\<lparr>facilitator := v\<rparr>) r h2 g2 = Inr (h3, g3)"
    using mutate_field_total [OF catalog_nonempty(3)] by blast
  from Cons.IH [of h3 g3] show ?case
    by (simp add: x s1 s2 s3)
qed

text \<open>A mutation always returns, and the schedule it returns is the one it was given with
  the fitness cache cleared: the violation cache is what it was.\<close>

lemma apply_mutation_result:
  "\<exists>h' g'. apply_mutation s p h g = Inr (s\<lparr>fitness := None\<rparr>, h', g')"
proof -
  obtain h' g' where "mutation_loop p (assignments s) h g = Inr (h', g')"
    using mutation_loop_total by blast
  then show ?thesis by (simp add: apply_mutation_def)
qed

subsection \<open>The evaluator returns on a schedule that has the four sections\<close>

lemma subscript_Inr:
  "k \<in> fst ` set d \<Longrightarrow> \<exists>v. subscript d k = Inr v"
  by (cases "map_of d k") (auto simp: subscript_def map_of_eq_None_iff)

lemma subscript_sections:
  assumes "has_sections its"
  shows "\<exists>v. subscript its ''SLA101A'' = Inr v" "\<exists>v. subscript its ''SLA101B'' = Inr v"
    "\<exists>v. subscript its ''SLA191A'' = Inr v" "\<exists>v. subscript its ''SLA191B'' = Inr v"
  using assms by (simp_all add: has_sections_def subscript_Inr)

lemma evaluate_section_spacing_total:
  "\<exists>v. subscript its s1 = Inr v \<Longrightarrow> \<exists>v. subscript its s2 = Inr v
     \<Longrightarrow> \<exists>x. evaluate_section_spacing s1 s2 its = Inr x"
  by (auto simp: evaluate_section_spacing_def)

lemma evaluate_cross_section_interaction_total:
  "\<exists>v. subscript its s1 = Inr v \<Longrightarrow> \<exists>v. subscript its s2 = Inr v
     \<Longrightarrow> \<exists>x. evaluate_cross_section_interaction s1 s2 its = Inr x"
  by (auto simp: evaluate_cross_section_interaction_def)

lemma cross_section_total_total:
  "\<forall>(s1, s2) \<in> set pairs. (\<exists>v. subscript its s1 = Inr v) \<and> (\<exists>v. subscript its s2 = Inr v)
     \<Longrightarrow> \<exists>x. cross_section_total pairs its = Inr x"
proof (induction pairs)
  case Nil
  show ?case by simp
next
  case (Cons p pairs)
  obtain s1 s2 where p: "p = (s1, s2)" by (cases p)
  from Cons.prems p obtain x where x: "evaluate_cross_section_interaction s1 s2 its = Inr x"
    using evaluate_cross_section_interaction_total [of its s1 s2] by auto
  from Cons obtain y where y: "cross_section_total pairs its = Inr y" by auto
  show ?case by (simp add: p x y)
qed

lemma cross_pairs_subscript:
  assumes "has_sections its"
  shows "\<forall>(s1, s2) \<in> set CROSS_SECTION_PAIRS.
           (\<exists>v. subscript its s1 = Inr v) \<and> (\<exists>v. subscript its s2 = Inr v)"
  using subscript_sections [OF assms] by (simp add: CROSS_SECTION_PAIRS_def)

lemma compute_fitness_total:
  assumes "has_sections its"
  shows "\<exists>v. compute_fitness its = Inr v"
proof -
  obtain a where a: "evaluate_section_spacing ''SLA101A'' ''SLA101B'' its = Inr a"
    using evaluate_section_spacing_total subscript_sections [OF assms] by blast
  obtain b where b: "evaluate_section_spacing ''SLA191A'' ''SLA191B'' its = Inr b"
    using evaluate_section_spacing_total subscript_sections [OF assms] by blast
  obtain c where c: "cross_section_total CROSS_SECTION_PAIRS its = Inr c"
    using cross_section_total_total [OF cross_pairs_subscript [OF assms]] by blast
  show ?thesis
    by (simp add: compute_fitness_def SLA101_SECTIONS_def SLA191_SECTIONS_def a b c)
qed

lemma cross_section_violations_total:
  "\<forall>(s1, s2) \<in> set pairs. (\<exists>v. subscript its s1 = Inr v) \<and> (\<exists>v. subscript its s2 = Inr v)
     \<Longrightarrow> \<exists>x. cross_section_violations pairs its v = Inr x"
proof (induction pairs arbitrary: v)
  case Nil
  show ?case by simp
next
  case (Cons p pairs)
  obtain s1 s2 where p: "p = (s1, s2)" by (cases p)
  from Cons.prems p obtain a1 a2 where a: "subscript its s1 = Inr a1" "subscript its s2 = Inr a2"
    by auto
  from Cons.IH [of "cross_section_violation v a1 a2"] Cons.prems show ?case
    by (simp add: p a)
qed

lemma same_time_sections_total:
  "\<exists>v. subscript its (fst ss) = Inr v \<Longrightarrow> \<exists>v. subscript its (snd ss) = Inr v
     \<Longrightarrow> \<exists>x. same_time_sections ss its = Inr x"
  by (auto simp: same_time_sections_def)

lemma count_violations_total:
  assumes "has_sections its"
  shows "\<exists>v. count_violations its = Inr v"
proof -
  obtain a where a: "same_time_sections SLA101_SECTIONS its = Inr a"
    using same_time_sections_total [of its SLA101_SECTIONS] subscript_sections [OF assms]
    by (auto simp: SLA101_SECTIONS_def)
  obtain b where b: "same_time_sections SLA191_SECTIONS its = Inr b"
    using same_time_sections_total [of its SLA191_SECTIONS] subscript_sections [OF assms]
    by (auto simp: SLA191_SECTIONS_def)
  show ?thesis
    unfolding count_violations_def Let_def
    using cross_section_violations_total [OF cross_pairs_subscript [OF assms]]
    by (simp add: a b)
qed

lemma fst_set_items: "fst ` set (items h s) = fst ` set (assignments s)"
  by (force simp: items_def)

lemma map_fst_items: "map fst (items h s) = map fst (assignments s)"
  by (simp add: items_def case_prod_beta)

lemma complete_has_sections: "complete s \<Longrightarrow> has_sections (items h s)"
proof -
  assume "complete s"
  then have "fst ` set (items h s) = set ALL_ACTIVITIES"
    using map_fst_items [of h s] by (metis complete_def list.set_map)
  then show ?thesis by (simp add: has_sections_def ALL_ACTIVITIES_eq)
qed

lemma example_schedule_complete: "complete example_schedule"
  by (simp add: complete_def example_schedule_def new_Schedule_def ALL_ACTIVITIES_eq)

subsection \<open>Mutation and the two caches\<close>

text \<open>
  Claim C1 says that after \<^verbatim>\<open>apply_mutation\<close> both caches of the schedule are unset. The
  function clears the fitness cache only. Here the violations of the example schedule are
  counted, which sets its violation cache; then the schedule is mutated with probability 1,
  so that every field of every assignment is drawn again. The schedule that comes back has
  no fitness, and still has the violation counts of the assignments it had before.
\<close>

theorem apply_mutation_keeps_stale_violations:
  "case calculate_constraint_violations example_heap example_schedule of
     Inl e \<Rightarrow> False
   | Inr (v, s1) \<Rightarrow>
       (case apply_mutation s1 1 example_heap (sconst 0) of
          Inl e \<Rightarrow> False
        | Inr (s2, h2, g2) \<Rightarrow> fitness s2 = None \<and> violations s2 = Some v)"
proof -
  obtain v where v: "count_violations (items example_heap example_schedule) = Inr v"
    using count_violations_total [OF complete_has_sections [OF example_schedule_complete]]
    by blast
  obtain h' g' where m:
    "apply_mutation (example_schedule\<lparr>violations := Some v\<rparr>) 1 example_heap (sconst 0)
       = Inr (example_schedule\<lparr>violations := Some v, fitness := None\<rparr>, h', g')"
    using apply_mutation_result by blast
  show ?thesis
    by (simp add: calculate_constraint_violations_def v m)
qed

subsection \<open>Counting with dictionaries\<close>

lemma get_default_bump:
  "get_default (bump d k) k' 0 = get_default d k' 0 + (if k' = k then 1 else 0)"
  by (simp add: bump_def get_default_def update_conv')

lemma distinct_bump: "distinct (map fst d) \<Longrightarrow> distinct (map fst (bump d k))"
  by (simp add: bump_def distinct_update)

lemma keys_bump: "fst ` set (bump d k) = insert k (fst ` set d)"
  by (simp add: bump_def dom_update)

lemma count_fold_get:
  "get_default (foldl (\<lambda>d x. if P x then bump d (K x) else d) d0 xs) k 0
     = get_default d0 k 0 + int (length (filter (\<lambda>x. P x \<and> K x = k) xs))"
  by (induction xs arbitrary: d0) (auto simp: get_default_bump)

lemma count_fold_distinct:
  "distinct (map fst d0)
     \<Longrightarrow> distinct (map fst (foldl (\<lambda>d x. if P x then bump d (K x) else d) d0 xs))"
  by (induction xs arbitrary: d0) (auto simp: distinct_bump)

lemma count_fold_keys:
  "fst ` set (foldl (\<lambda>d x. if P x then bump d (K x) else d) d0 xs)
     = fst ` set d0 \<union> K ` {x \<in> set xs. P x}"
  by (induction xs arbitrary: d0) (auto simp: keys_bump)

lemma count_conflicts_foldl:
  "foldl (\<lambda>total count. if count > 1 then total + (count - 1) else total) acc cs
     = acc + sum_list (map (\<lambda>c. if c > 1 then c - 1 else (0::int)) cs)"
  by (induction cs arbitrary: acc) auto

lemma count_conflicts_sum_list:
  "count_conflicts d = sum_list (map (\<lambda>x. if snd x > 1 then snd x - 1 else 0) d)"
  by (simp add: count_conflicts_def count_conflicts_foldl comp_def)

lemma get_default_member:
  "distinct (map fst d) \<Longrightarrow> x \<in> set d \<Longrightarrow> get_default d (fst x) v0 = snd x"
  by (cases x) (simp add: get_default_def)

lemma count_conflicts_sum:
  assumes "distinct (map fst d)"
  shows "count_conflicts d
           = (\<Sum>k \<in> fst ` set d. if get_default d k 0 > 1 then get_default d k 0 - 1 else 0)"
proof -
  let ?g = "\<lambda>k. if get_default d k 0 > 1 then get_default d k 0 - 1 else 0"
  have "map (\<lambda>x. if snd x > 1 then snd x - 1 else 0) d = map (\<lambda>x. ?g (fst x)) d"
    by (rule map_cong) (simp_all add: get_default_member [OF assms])
  also have "\<dots> = map ?g (map fst d)"
    by (simp add: comp_def)
  finally have eq: "map (\<lambda>x. if snd x > 1 then snd x - 1 else 0) d = map ?g (map fst d)" .
  have "count_conflicts d = sum_list (map (\<lambda>x. if snd x > 1 then snd x - 1 else 0) d)"
    by (rule count_conflicts_sum_list)
  also have "\<dots> = sum_list (map ?g (map fst d))"
    by (simp only: eq)
  also have "\<dots> = sum ?g (set (map fst d))"
    using assms by (rule sum_list_distinct_conv_sum_set)
  finally show ?thesis by simp
qed

lemma room_time_counts_fold:
  "room_time_counts its =
     foldl (\<lambda>d x. if truthy (room (snd x)) \<and> truthy (time (snd x))
                   then bump d (room (snd x), time (snd x)) else d) [] its"
  unfolding room_time_counts_def
  by (rule arg_cong [where f = "\<lambda>f. foldl f [] its"]) (auto simp: fun_eq_iff)

lemma room_time_counts_keys: "fst ` set (room_time_counts its) = occupied_pairs its"
  unfolding room_time_counts_fold count_fold_keys
  by (auto simp: occupied_pairs_def)

lemma room_time_counts_distinct: "distinct (map fst (room_time_counts its))"
  unfolding room_time_counts_fold by (rule count_fold_distinct) simp

lemma room_time_counts_get:
  "truthy (fst p) \<Longrightarrow> truthy (snd p) \<Longrightarrow> get_default (room_time_counts its) p 0 = occupants its p"
proof -
  assume t: "truthy (fst p)" "truthy (snd p)"
  have "filter (\<lambda>x. (truthy (room (snd x)) \<and> truthy (time (snd x)))
                      \<and> (room (snd x), time (snd x)) = p) its
          = filter (\<lambda>x. (room (snd x), time (snd x)) = p) its"
    using t by (intro filter_cong) auto
  then show ?thesis
    unfolding room_time_counts_fold count_fold_get occupants_def
    by (simp add: get_default_def)
qed

lemma occupied_pairs_truthy: "p \<in> occupied_pairs its \<Longrightarrow> truthy (fst p) \<and> truthy (snd p)"
  by (auto simp: occupied_pairs_def)

lemma count_room_conflicts:
  "count_conflicts (room_time_counts its)
     = (\<Sum>p \<in> {p \<in> occupied_pairs its. occupants its p > 1}. occupants its p - 1)"
proof -
  have "count_conflicts (room_time_counts its)
          = (\<Sum>p \<in> occupied_pairs its.
               if get_default (room_time_counts its) p 0 > 1
               then get_default (room_time_counts its) p 0 - 1 else 0)"
    using count_conflicts_sum [OF room_time_counts_distinct] room_time_counts_keys by simp
  also have "\<dots> = (\<Sum>p \<in> occupied_pairs its. if occupants its p > 1 then occupants its p - 1 else 0)"
    by (rule sum.cong) (simp_all add: room_time_counts_get occupied_pairs_truthy)
  also have "\<dots> = (\<Sum>p \<in> {p \<in> occupied_pairs its. occupants its p > 1}. occupants its p - 1)"
    by (simp add: sum.inter_filter occupied_pairs_def)
  finally show ?thesis .
qed

subsection \<open>The example schedule\<close>

lemma example_items:
  "items example_heap example_schedule = zip ALL_ACTIVITIES example_assignments"
  by (simp add: items_def example_heap_def example_schedule_def new_Schedule_def
      heap_of_list_def ALL_ACTIVITIES_eq example_assignments_def)

lemma example_items_list:
  "zip ALL_ACTIVITIES example_assignments =
     [(''SLA101A'', assignment ''Roman 201'' ''10 AM'' ''Glen''),
      (''SLA101B'', assignment ''Roman 201'' ''10 AM'' ''Lock''),
      (''SLA191A'', assignment ''Roman 201'' ''10 AM'' ''Banks''),
      (''SLA191B'', assignment ''Loft 206'' ''11 AM'' ''Glen''),
      (''SLA201'', assignment ''Frank 119'' ''12 PM'' ''Glen''),
      (''SLA291'', assignment ''Roman 216'' ''1 PM'' ''Lock''),
      (''SLA303'', assignment ''Beach 301'' ''2 PM'' ''Lock''),
      (''SLA304'', assignment ''Beach 201'' ''3 PM'' ''Banks''),
      (''SLA394'', assignment ''Slater 003'' ''10 AM'' ''Tyler''),
      (''SLA449'', assignment ''Loft 310'' ''11 AM'' ''Tyler''),
      (''SLA451'', assignment ''James 325'' ''12 PM'' ''Banks'')]"
  by (simp add: ALL_ACTIVITIES_eq example_assignments_def)

lemma example_occupied:
  "occupied_pairs (items example_heap example_schedule) =
     {(Some ''Roman 201'', Some ''10 AM''), (Some ''Loft 206'', Some ''11 AM''),
      (Some ''Frank 119'', Some ''12 PM''), (Some ''Roman 216'', Some ''1 PM''),
      (Some ''Beach 301'', Some ''2 PM''), (Some ''Beach 201'', Some ''3 PM''),
      (Some ''Slater 003'', Some ''10 AM''), (Some ''Loft 310'', Some ''11 AM''),
      (Some ''James 325'', Some ''12 PM'')}"
  by (simp add: example_items example_items_list occupied_pairs_def assignment_def truthy_def)

lemma example_occupants_3:
  "occupants (items example_heap example_schedule) (Some ''Roman 201'', Some ''10 AM'') = 3"
  by (simp add: example_items example_items_list occupants_def assignment_def)

lemma example_occupants_1:
  "\<forall>q \<in> occupied_pairs (items example_heap example_schedule).
      q \<noteq> (Some ''Roman 201'', Some ''10 AM'')
      \<longrightarrow> occupants (items example_heap example_schedule) q = 1"
  unfolding example_occupied
  by (simp add: example_items example_items_list occupants_def assignment_def)

subsection \<open>Room conflicts\<close>

lemma room_conflicts_room_size_violation [simp]:
  "room_conflicts (room_size_violation v x) = room_conflicts v"
  by (simp add: room_size_violation_def Let_def split: prod.split option.split)

lemma room_conflicts_foldl_room_size [simp]:
  "room_conflicts (foldl room_size_violation v xs) = room_conflicts v"
  by (induction xs arbitrary: v) simp_all

lemma room_conflicts_load_violation [simp]:
  "room_conflicts (load_violation v x) = room_conflicts v"
  by (simp add: load_violation_def split: prod.split)

lemma room_conflicts_foldl_load [simp]:
  "room_conflicts (foldl load_violation v xs) = room_conflicts v"
  by (induction xs arbitrary: v) simp_all

lemma room_conflicts_cross_section_violation [simp]:
  "room_conflicts (cross_section_violation v a b) = room_conflicts v"
  by (simp add: cross_section_violation_def Let_def)

lemma room_conflicts_cross_section_violations:
  "cross_section_violations pairs its v = Inr v' \<Longrightarrow> room_conflicts v' = room_conflicts v"
proof (induction pairs arbitrary: v)
  case Nil
  then show ?case by simp
next
  case (Cons p pairs)
  obtain s1 s2 where p: "p = (s1, s2)" by (cases p)
  from Cons.prems obtain a b where
    "cross_section_violations pairs its (cross_section_violation v a b) = Inr v'"
    by (auto simp: p bind_result_eq_Inr)
  from Cons.IH [OF this] show ?case by simp
qed

lemma count_violations_room_conflicts:
  "count_violations its = Inr v
     \<Longrightarrow> room_conflicts v = count_conflicts (room_time_counts its)"
  unfolding count_violations_def Let_def
  by (auto simp: bind_result_eq_Inr no_violations_def
           dest!: room_conflicts_cross_section_violations)

lemma room_conflicts_single_triple:
  assumes p: "p \<in> occupied_pairs its" and three: "occupants its p = 3"
    and others: "\<forall>q \<in> occupied_pairs its. q \<noteq> p \<longrightarrow> occupants its q = 1"
  shows "(\<Sum>p \<in> {p \<in> occupied_pairs its. occupants its p > 1}. occupants its p - 1) = 2"
proof -
  have "{q \<in> occupied_pairs its. occupants its q > 1} = {p}"
    using p three others by auto
  then show ?thesis using three by simp
qed

text \<open>
  Claim C6. The violation counter returns on every schedule that has the four sections, and
  its \<open>room_conflicts\<close> is the sum of \<open>k - 1\<close> over the pairs of a room and a time slot
  that hold \<open>k > 1\<close> activities. In particular, when one pair holds three activities and
  every other occupied pair holds one, \<open>room_conflicts\<close> is 2.
\<close>

theorem room_conflicts_occupants_minus_one:
  assumes "has_sections (items h s)"
  shows "\<exists>v s'. calculate_constraint_violations h s = Inr (v, s')
           \<and> room_conflicts v
               = (\<Sum>p \<in> {p \<in> occupied_pairs (items h s). occupants (items h s) p > 1}.
                    occupants (items h s) p - 1)
           \<and> (\<forall>p. p \<in> occupied_pairs (items h s) \<and> occupants (items h s) p = 3
                   \<and> (\<forall>q \<in> occupied_pairs (items h s).
                          q \<noteq> p \<longrightarrow> occupants (items h s) q = 1)
                 \<longrightarrow> room_conflicts v = 2)"
proof -
  obtain v where v: "count_violations (items h s) = Inr v"
    using count_violations_total [OF assms] by blast
  have rc: "room_conflicts v
              = (\<Sum>p \<in> {p \<in> occupied_pairs (items h s). occupants (items h s) p > 1}.
                   occupants (items h s) p - 1)"
    using count_violations_room_conflicts [OF v] count_room_conflicts by simp
  have "calculate_constraint_violations h s = Inr (v, s\<lparr>violations := Some v\<rparr>)"
    by (simp add: calculate_constraint_violations_def v)
  moreover have "\<forall>p. p \<in> occupied_pairs (items h s) \<and> occupants (items h s) p = 3
                   \<and> (\<forall>q \<in> occupied_pairs (items h s).
                          q \<noteq> p \<longrightarrow> occupants (items h s) q = 1)
                 \<longrightarrow> room_conflicts v = 2"
  proof (intro allI impI)
    fix p
    assume "p \<in> occupied_pairs (items h s) \<and> occupants (items h s) p = 3
              \<and> (\<forall>q \<in> occupied_pairs (items h s). q \<noteq> p \<longrightarrow> occupants (items h s) q = 1)"
    then show "room_conflicts v = 2"
      using room_conflicts_single_triple [of p "items h s"] rc by simp
  qed
  ultimately show ?thesis using rc by blast
qed

theorem room_conflicts_occupants_minus_one_witness:
  "has_sections (items example_heap example_schedule)
   \<and> (\<exists>v s'. calculate_constraint_violations example_heap example_schedule = Inr (v, s')
         \<and> room_conflicts v = 2)"
proof -
  have hs: "has_sections (items example_heap example_schedule)"
    by (rule complete_has_sections [OF example_schedule_complete])
  from room_conflicts_occupants_minus_one [OF hs] obtain v s' where
    r: "calculate_constraint_violations example_heap example_schedule = Inr (v, s')"
    and three: "\<forall>p. p \<in> occupied_pairs (items example_heap example_schedule)
                  \<and> occupants (items example_heap example_schedule) p = 3
                  \<and> (\<forall>q \<in> occupied_pairs (items example_heap example_schedule).
                         q \<noteq> p \<longrightarrow> occupants (items example_heap example_schedule) q = 1)
                \<longrightarrow> room_conflicts v = 2"
    by blast
  have "(Some ''Roman 201'', Some ''10 AM'') \<in> occupied_pairs (items example_heap example_schedule)"
    by (simp add: example_occupied)
  with three example_occupants_3 example_occupants_1 have "room_conflicts v = 2"
    by blast
  with hs r show ?thesis by blast
qed

subsection \<open>Facilitator load\<close>

lemma facilitator_total_load_fold:
  "facilitator_total_load its =
     foldl (\<lambda>d x. if truthy (facilitator (snd x)) then bump d (facilitator (snd x)) else d) [] its"
  unfolding facilitator_total_load_def
  by (rule arg_cong [where f = "\<lambda>f. foldl f [] its"]) (auto simp: fun_eq_iff)

lemma facilitator_total_counts_eq: "facilitator_total_counts its = facilitator_total_load its"
  by (simp add: facilitator_total_counts_def facilitator_total_load_def)

lemma facilitator_total_load_keys:
  "fst ` set (facilitator_total_load its) = facilitators_used its"
  unfolding facilitator_total_load_fold count_fold_keys
  by (auto simp: facilitators_used_def)

lemma facilitator_total_load_distinct: "distinct (map fst (facilitator_total_load its))"
  unfolding facilitator_total_load_fold by (rule count_fold_distinct) simp

lemma facilitator_total_load_get:
  "truthy f \<Longrightarrow> get_default (facilitator_total_load its) f 0 = total_load its f"
proof -
  assume t: "truthy f"
  have "filter (\<lambda>x. truthy (facilitator (snd x)) \<and> facilitator (snd x) = f) its
          = filter (\<lambda>x. facilitator (snd x) = f) its"
    using t by (intro filter_cong) auto
  then show ?thesis
    unfolding facilitator_total_load_fold count_fold_get total_load_def
    by (simp add: get_default_def)
qed

lemma facilitators_used_truthy: "f \<in> facilitators_used its \<Longrightarrow> truthy f"
  by (auto simp: facilitators_used_def)

lemma facilitator_load_score_rule:
  assumes "truthy (facilitator a)"
  shows "facilitator_load_score (facilitator_total_load its) a =
           (if total_load its (facilitator a) > 4 then - 0.5
            else if total_load its (facilitator a) < 3 then
              (if facilitator a = Some ''Tyler'' \<and> total_load its (facilitator a) < 2 then 0
               else - 0.4)
            else 0)"
  using assms by (simp add: facilitator_load_score_def facilitator_total_load_get Let_def)

text \<open>The two load counters after the loop over the dictionary of loads.\<close>

lemma load_violation_overload:
  "facilitator_overload (load_violation v x)
     = facilitator_overload v + (if snd x > 4 then 1 else 0)"
  by (cases x) (simp add: load_violation_def)

lemma load_violation_underload:
  "facilitator_underload (load_violation v x)
     = facilitator_underload v
       + (if snd x < 3 \<and> \<not> (fst x = Some ''Tyler'' \<and> snd x < 2) then 1 else 0)"
  by (cases x) (auto simp: load_violation_def)

lemma foldl_load_overload:
  "facilitator_overload (foldl load_violation v d)
     = facilitator_overload v + int (length (filter (\<lambda>x. snd x > 4) d))"
  by (induction d arbitrary: v) (simp_all add: load_violation_overload)

lemma foldl_load_underload:
  "facilitator_underload (foldl load_violation v d)
     = facilitator_underload v
       + int (length (filter (\<lambda>x. snd x < 3 \<and> \<not> (fst x = Some ''Tyler'' \<and> snd x < 2)) d))"
  by (induction d arbitrary: v) (simp_all add: load_violation_underload)

lemma length_filter_alist:
  assumes d: "distinct (map fst d)"
  shows "length (filter (\<lambda>x. Q (fst x) (snd x)) d)
           = card {k \<in> fst ` set d. Q k (get_default d k 0)}"
proof -
  have dist: "distinct (map fst (filter (\<lambda>x. Q (fst x) (snd x)) d))"
    using d by (rule distinct_map_filter)
  have "set (map fst (filter (\<lambda>x. Q (fst x) (snd x)) d))
          = {k \<in> fst ` set d. Q k (get_default d k 0)}"
    using get_default_member [OF d, where ?v0.0 = 0] by force
  then have "card {k \<in> fst ` set d. Q k (get_default d k 0)}
               = length (map fst (filter (\<lambda>x. Q (fst x) (snd x)) d))"
    using distinct_card [OF dist] by simp
  then show ?thesis by simp
qed

lemma load_fields_room_size_violation [simp]:
  "facilitator_overload (room_size_violation v x) = facilitator_overload v"
  "facilitator_underload (room_size_violation v x) = facilitator_underload v"
  by (simp_all add: room_size_violation_def Let_def split: prod.split option.split)

lemma load_fields_foldl_room_size [simp]:
  "facilitator_overload (foldl room_size_violation v xs) = facilitator_overload v"
  "facilitator_underload (foldl room_size_violation v xs) = facilitator_underload v"
  by (induction xs arbitrary: v) simp_all

lemma load_fields_cross_section_violation [simp]:
  "facilitator_overload (cross_section_violation v a b) = facilitator_overload v"
  "facilitator_underload (cross_section_violation v a b) = facilitator_underload v"
  by (simp_all add: cross_section_violation_def Let_def)

lemma load_fields_cross_section_violations:
  "cross_section_violations pairs its v = Inr v'
     \<Longrightarrow> facilitator_overload v' = facilitator_overload v
         \<and> facilitator_underload v' = facilitator_underload v"
proof (induction pairs arbitrary: v)
  case Nil
  then show ?case by simp
next
  case (Cons p pairs)
  obtain s1 s2 where p: "p = (s1, s2)" by (cases p)
  from Cons.prems obtain a b where
    "cross_section_violations pairs its (cross_section_violation v a b) = Inr v'"
    by (auto simp: p bind_result_eq_Inr)
  from Cons.IH [OF this] show ?case by simp
qed

lemma count_violations_load_fields:
  assumes "count_violations its = Inr v"
  shows "facilitator_overload v
           = int (length (filter (\<lambda>x. snd x > 4) (facilitator_total_load its)))"
    and "facilitator_underload v
           = int (length (filter (\<lambda>x. snd x < 3 \<and> \<not> (fst x = Some ''Tyler'' \<and> snd x < 2))
                            (facilitator_total_load its)))"
  using assms unfolding count_violations_def Let_def
  by (auto simp: bind_result_eq_Inr no_violations_def foldl_load_overload foldl_load_underload
                 facilitator_total_counts_eq
           dest!: load_fields_cross_section_violations)

lemma count_violations_overload:
  assumes "count_violations its = Inr v"
  shows "facilitator_overload v = int (card {f \<in> facilitators_used its. total_load its f > 4})"
proof -
  have "length (filter (\<lambda>x. snd x > 4) (facilitator_total_load its))
          = card {f \<in> fst ` set (facilitator_total_load its).
                    get_default (facilitator_total_load its) f 0 > 4}"
    using length_filter_alist [OF facilitator_total_load_distinct, where Q = "\<lambda>k c. c > 4"]
    by simp
  also have "{f \<in> fst ` set (facilitator_total_load its).
                get_default (facilitator_total_load its) f 0 > 4}
               = {f \<in> facilitators_used its. total_load its f > 4}"
    by (auto simp: facilitator_total_load_keys facilitator_total_load_get
                   facilitators_used_truthy)
  finally show ?thesis using count_violations_load_fields(1) [OF assms] by simp
qed

lemma count_violations_underload:
  assumes "count_violations its = Inr v"
  shows "facilitator_underload v
           = int (card {f \<in> facilitators_used its.
                          total_load its f < 3
                          \<and> \<not> (f = Some ''Tyler'' \<and> total_load its f < 2)})"
proof -
  have "length (filter (\<lambda>x. snd x < 3 \<and> \<not> (fst x = Some ''Tyler'' \<and> snd x < 2))
                  (facilitator_total_load its))
          = card {f \<in> fst ` set (facilitator_total_load its).
                    get_default (facilitator_total_load its) f 0 < 3
                    \<and> \<not> (f = Some ''Tyler''
                          \<and> get_default (facilitator_total_load its) f 0 < 2)}"
    using length_filter_alist [OF facilitator_total_load_distinct,
            where Q = "\<lambda>k c. c < 3 \<and> \<not> (k = Some ''Tyler'' \<and> c < 2)"]
    by simp
  also have "{f \<in> fst ` set (facilitator_total_load its).
                get_default (facilitator_total_load its) f 0 < 3
                \<and> \<not> (f = Some ''Tyler'' \<and> get_default (facilitator_total_load its) f 0 < 2)}
               = {f \<in> facilitators_used its.
                    total_load its f < 3 \<and> \<not> (f = Some ''Tyler'' \<and> total_load its f < 2)}"
    by (auto simp: facilitator_total_load_keys facilitator_total_load_get
                   facilitators_used_truthy)
  finally show ?thesis using count_violations_load_fields(2) [OF assms] by simp
qed

lemma example_facilitators:
  "facilitators_used (items example_heap example_schedule)
     = {Some ''Glen'', Some ''Lock'', Some ''Banks'', Some ''Tyler''}"
  by (auto simp: example_items example_items_list facilitators_used_def assignment_def truthy_def)

lemma example_loads:
  "total_load (items example_heap example_schedule) (Some ''Glen'') = 3"
  "total_load (items example_heap example_schedule) (Some ''Lock'') = 3"
  "total_load (items example_heap example_schedule) (Some ''Banks'') = 3"
  "total_load (items example_heap example_schedule) (Some ''Tyler'') = 2"
  by (simp_all add: example_items example_items_list total_load_def assignment_def)

lemma example_overloaded:
  "{f \<in> facilitators_used (items example_heap example_schedule).
      total_load (items example_heap example_schedule) f > 4} = {}"
  unfolding example_facilitators by (auto simp: example_loads)

lemma example_underloaded:
  "{f \<in> facilitators_used (items example_heap example_schedule).
      total_load (items example_heap example_schedule) f < 3
      \<and> \<not> (f = Some ''Tyler'' \<and> total_load (items example_heap example_schedule) f < 2)}
     = {Some ''Tyler''}"
  unfolding example_facilitators by (auto simp: example_loads)

lemma example_fitness: "compute_fitness (items example_heap example_schedule) = Inr (31 / 10)"
  by code_simp

lemma activity_score_parts:
  "activity_score its x
     = evaluate_room_size (fst x) (room (snd x))
       + evaluate_facilitator_preference (fst x) (facilitator (snd x))
       + room_time_conflict_score (room_time_usage its) (snd x)
       + facilitator_time_score (facilitator_time_usage its) (snd x)
       + (if truthy (facilitator (snd x)) then
            (if total_load its (facilitator (snd x)) > 4 then - 0.5
             else if total_load its (facilitator (snd x)) < 3 then
               (if facilitator (snd x) = Some ''Tyler'' \<and> total_load its (facilitator (snd x)) < 2
                then 0 else - 0.4)
             else 0)
          else 0)"
proof (cases "truthy (facilitator (snd x))")
  case True
  then show ?thesis
    by (simp add: activity_score_def case_prod_beta facilitator_load_score_rule)
next
  case False
  then show ?thesis
    by (simp add: activity_score_def case_prod_beta facilitator_load_score_def)
qed

lemma compute_fitness_parts:
  assumes "has_sections its"
  shows "\<exists>s101 s191 cross.
           evaluate_section_spacing ''SLA101A'' ''SLA101B'' its = Inr s101
           \<and> evaluate_section_spacing ''SLA191A'' ''SLA191B'' its = Inr s191
           \<and> cross_section_total CROSS_SECTION_PAIRS its = Inr cross
           \<and> compute_fitness its
               = Inr (sum_list (map (activity_score its) its) + s101 + s191 + cross)"
proof -
  obtain a where a: "evaluate_section_spacing ''SLA101A'' ''SLA101B'' its = Inr a"
    using evaluate_section_spacing_total subscript_sections [OF assms] by blast
  obtain b where b: "evaluate_section_spacing ''SLA191A'' ''SLA191B'' its = Inr b"
    using evaluate_section_spacing_total subscript_sections [OF assms] by blast
  obtain c where c: "cross_section_total CROSS_SECTION_PAIRS its = Inr c"
    using cross_section_total_total [OF cross_pairs_subscript [OF assms]] by blast
  have "compute_fitness its = Inr (sum_list (map (activity_score its) its) + a + b + c)"
    by (simp add: compute_fitness_def SLA101_SECTIONS_def SLA191_SECTIONS_def a b c)
  with a b c show ?thesis by blast
qed

text \<open>
  Claim C3. For every activity with a facilitator, the score of the activity is the sum of
  its four other parts and of the load penalty, where the load \<open>L\<close> is the number of
  activities of that facilitator in the whole schedule: \<open>- 0.5\<close> when \<open>L > 4\<close>;
  \<open>- 0.4\<close> when \<open>L < 3\<close>, except for Tyler with \<open>L < 2\<close>, who has no penalty (Tyler
  with \<open>L = 2\<close> has it). The fitness that the evaluation computes, returns, stores in the
  schedule and enters in an empty cache is the sum over all activities of these four parts
  and of this penalty (none for an activity without a facilitator), plus the values of the
  two section spacing rules and of the cross-section rule. The violation counter counts
  one overload for every facilitator with \<open>L > 4\<close> and one underload for every facilitator
  with \<open>L < 3\<close>, Tyler with \<open>L < 2\<close> excepted.
\<close>

theorem facilitator_load_rule:
  assumes "has_sections (items h s)"
  shows "(\<forall>x \<in> set (items h s). truthy (facilitator (snd x)) \<longrightarrow>
            activity_score (items h s) x
              = evaluate_room_size (fst x) (room (snd x))
                + evaluate_facilitator_preference (fst x) (facilitator (snd x))
                + room_time_conflict_score (room_time_usage (items h s)) (snd x)
                + facilitator_time_score (facilitator_time_usage (items h s)) (snd x)
                + (if total_load (items h s) (facilitator (snd x)) > 4 then - 0.5
                   else if total_load (items h s) (facilitator (snd x)) < 3 then
                     (if facilitator (snd x) = Some ''Tyler''
                         \<and> total_load (items h s) (facilitator (snd x)) < 2
                      then 0 else - 0.4)
                   else 0))
       \<and> (\<exists>s101 s191 cross total_score.
             evaluate_section_spacing ''SLA101A'' ''SLA101B'' (items h s) = Inr s101
             \<and> evaluate_section_spacing ''SLA191A'' ''SLA191B'' (items h s) = Inr s191
             \<and> cross_section_total CROSS_SECTION_PAIRS (items h s) = Inr cross
             \<and> total_score
                 = (\<Sum>x\<leftarrow>items h s.
                      evaluate_room_size (fst x) (room (snd x))
                      + evaluate_facilitator_preference (fst x) (facilitator (snd x))
                      + room_time_conflict_score (room_time_usage (items h s)) (snd x)
                      + facilitator_time_score (facilitator_time_usage (items h s)) (snd x)
                      + (if truthy (facilitator (snd x)) then
                           (if total_load (items h s) (facilitator (snd x)) > 4 then - 0.5
                            else if total_load (items h s) (facilitator (snd x)) < 3 then
                              (if facilitator (snd x) = Some ''Tyler''
                                  \<and> total_load (items h s) (facilitator (snd x)) < 2
                               then 0 else - 0.4)
                            else 0)
                         else 0))
                   + s101 + s191 + cross
             \<and> compute_fitness (items h s) = Inr total_score
             \<and> calculate_schedule_fitness hs h s Map.empty
                 = Inr (total_score, s\<lparr>fitness := Some total_score\<rparr>,
                        [hs (triples (items h s)) \<mapsto> total_score]))
       \<and> (\<exists>v s'. calculate_constraint_violations h s = Inr (v, s')
             \<and> facilitator_overload v
                 = int (card {f \<in> facilitators_used (items h s). total_load (items h s) f > 4})
             \<and> facilitator_underload v
                 = int (card {f \<in> facilitators_used (items h s).
                                total_load (items h s) f < 3
                                \<and> \<not> (f = Some ''Tyler'' \<and> total_load (items h s) f < 2)}))"
proof (intro conjI)
  show "\<forall>x \<in> set (items h s). truthy (facilitator (snd x)) \<longrightarrow>
            activity_score (items h s) x
              = evaluate_room_size (fst x) (room (snd x))
                + evaluate_facilitator_preference (fst x) (facilitator (snd x))
                + room_time_conflict_score (room_time_usage (items h s)) (snd x)
                + facilitator_time_score (facilitator_time_usage (items h s)) (snd x)
                + (if total_load (items h s) (facilitator (snd x)) > 4 then - 0.5
                   else if total_load (items h s) (facilitator (snd x)) < 3 then
                     (if facilitator (snd x) = Some ''Tyler''
                         \<and> total_load (items h s) (facilitator (snd x)) < 2
                      then 0 else - 0.4)
                   else 0)"
    by (simp add: activity_score_def case_prod_beta facilitator_load_score_rule)
next
  let ?its = "items h s"
  let ?part = "\<lambda>x. evaluate_room_size (fst x) (room (snd x))
                      + evaluate_facilitator_preference (fst x) (facilitator (snd x))
                      + room_time_conflict_score (room_time_usage ?its) (snd x)
                      + facilitator_time_score (facilitator_time_usage ?its) (snd x)
                      + (if truthy (facilitator (snd x)) then
                           (if total_load ?its (facilitator (snd x)) > 4 then - 0.5
                            else if total_load ?its (facilitator (snd x)) < 3 then
                              (if facilitator (snd x) = Some ''Tyler''
                                  \<and> total_load ?its (facilitator (snd x)) < 2
                               then 0 else - 0.4)
                            else 0)
                         else 0)"
  obtain s101 s191 cross where
    a: "evaluate_section_spacing ''SLA101A'' ''SLA101B'' ?its = Inr s101"
    and b: "evaluate_section_spacing ''SLA191A'' ''SLA191B'' ?its = Inr s191"
    and c: "cross_section_total CROSS_SECTION_PAIRS ?its = Inr cross"
    and f: "compute_fitness ?its
              = Inr (sum_list (map (activity_score ?its) ?its) + s101 + s191 + cross)"
    using compute_fitness_parts [OF assms] by blast
  have m: "map (activity_score ?its) ?its = map ?part ?its"
    by (rule map_cong [OF refl]) (rule activity_score_parts)
  let ?t = "sum_list (map ?part ?its) + s101 + s191 + cross"
  have f': "compute_fitness ?its = Inr ?t"
    using f unfolding m .
  have g: "calculate_schedule_fitness hs h s Map.empty
             = Inr (?t, s\<lparr>fitness := Some ?t\<rparr>, [hs (triples ?its) \<mapsto> ?t])"
    by (simp add: calculate_schedule_fitness_def f')
  show "\<exists>s101 s191 cross total_score.
             evaluate_section_spacing ''SLA101A'' ''SLA101B'' (items h s) = Inr s101
             \<and> evaluate_section_spacing ''SLA191A'' ''SLA191B'' (items h s) = Inr s191
             \<and> cross_section_total CROSS_SECTION_PAIRS (items h s) = Inr cross
             \<and> total_score = sum_list (map ?part (items h s)) + s101 + s191 + cross
             \<and> compute_fitness (items h s) = Inr total_score
             \<and> calculate_schedule_fitness hs h s Map.empty
                 = Inr (total_score, s\<lparr>fitness := Some total_score\<rparr>,
                        [hs (triples (items h s)) \<mapsto> total_score])"
    using a b c f' g by blast
next
  obtain v where v: "count_violations (items h s) = Inr v"
    using count_violations_total [OF assms] by blast
  have "calculate_constraint_violations h s = Inr (v, s\<lparr>violations := Some v\<rparr>)"
    by (simp add: calculate_constraint_violations_def v)
  then show "\<exists>v s'. calculate_constraint_violations h s = Inr (v, s')
             \<and> facilitator_overload v
                 = int (card {f \<in> facilitators_used (items h s). total_load (items h s) f > 4})
             \<and> facilitator_underload v
                 = int (card {f \<in> facilitators_used (items h s).
                                total_load (items h s) f < 3
                                \<and> \<not> (f = Some ''Tyler'' \<and> total_load (items h s) f < 2)})"
    using count_violations_overload [OF v] count_violations_underload [OF v] by blast
qed


theorem facilitator_load_rule_witness:
  "has_sections (items example_heap example_schedule)
   \<and> activity_score (items example_heap example_schedule)
        (''SLA394'', assignment ''Slater 003'' ''10 AM'' ''Tyler'')
       = evaluate_room_size ''SLA394'' (Some ''Slater 003'')
         + evaluate_facilitator_preference ''SLA394'' (Some ''Tyler'')
         + room_time_conflict_score (room_time_usage (items example_heap example_schedule))
             (assignment ''Slater 003'' ''10 AM'' ''Tyler'')
         + facilitator_time_score (facilitator_time_usage (items example_heap example_schedule))
             (assignment ''Slater 003'' ''10 AM'' ''Tyler'')
         + (- 0.4)
   \<and> calculate_schedule_fitness (\<lambda>x. x) example_heap example_schedule Map.empty
       = Inr (31 / 10, example_schedule\<lparr>fitness := Some (31 / 10)\<rparr>,
              [triples (items example_heap example_schedule) \<mapsto> 31 / 10])
   \<and> (\<exists>v s'. calculate_constraint_violations example_heap example_schedule = Inr (v, s')
         \<and> facilitator_overload v = 0 \<and> facilitator_underload v = 1)"
proof -
  have hs: "has_sections (items example_heap example_schedule)"
    by (rule complete_has_sections [OF example_schedule_complete])
  let ?x = "(''SLA394'', assignment ''Slater 003'' ''10 AM'' ''Tyler'')"
  have mem: "?x \<in> set (items example_heap example_schedule)"
    by (simp add: example_items example_items_list)
  have tr: "truthy (facilitator (snd ?x))"
    by (simp add: assignment_def truthy_def)
  have fac: "facilitator (assignment ''Slater 003'' ''10 AM'' ''Tyler'') = Some ''Tyler''"
    "room (assignment ''Slater 003'' ''10 AM'' ''Tyler'') = Some ''Slater 003''"
    by (simp_all add: assignment_def)
  note rule = facilitator_load_rule [where hs = "\<lambda>x. x", OF hs]
  from rule mem tr have
    "activity_score (items example_heap example_schedule) ?x
       = evaluate_room_size (fst ?x) (room (snd ?x))
         + evaluate_facilitator_preference (fst ?x) (facilitator (snd ?x))
         + room_time_conflict_score (room_time_usage (items example_heap example_schedule)) (snd ?x)
         + facilitator_time_score (facilitator_time_usage (items example_heap example_schedule)) (snd ?x)
         + (if total_load (items example_heap example_schedule) (facilitator (snd ?x)) > 4 then - 0.5
            else if total_load (items example_heap example_schedule) (facilitator (snd ?x)) < 3 then
              (if facilitator (snd ?x) = Some ''Tyler''
                  \<and> total_load (items example_heap example_schedule) (facilitator (snd ?x)) < 2
               then 0 else - 0.4)
            else 0)"
    by blast
  then have score: "activity_score (items example_heap example_schedule) ?x
       = evaluate_room_size ''SLA394'' (Some ''Slater 003'')
         + evaluate_facilitator_preference ''SLA394'' (Some ''Tyler'')
         + room_time_conflict_score (room_time_usage (items example_heap example_schedule))
             (assignment ''Slater 003'' ''10 AM'' ''Tyler'')
         + facilitator_time_score (facilitator_time_usage (items example_heap example_schedule))
             (assignment ''Slater 003'' ''10 AM'' ''Tyler'')
         + (- 0.4)"
    by (simp add: fac example_loads)
  from rule obtain total_score where
    t: "compute_fitness (items example_heap example_schedule) = Inr total_score"
    and c: "calculate_schedule_fitness (\<lambda>x. x) example_heap example_schedule Map.empty
              = Inr (total_score, example_schedule\<lparr>fitness := Some total_score\<rparr>,
                     [triples (items example_heap example_schedule) \<mapsto> total_score])"
    by blast
  from t have "total_score = 31 / 10" by (simp add: example_fitness)
  with c have fit: "calculate_schedule_fitness (\<lambda>x. x) example_heap example_schedule Map.empty
       = Inr (31 / 10, example_schedule\<lparr>fitness := Some (31 / 10)\<rparr>,
              [triples (items example_heap example_schedule) \<mapsto> 31 / 10])"
    by simp
  from rule obtain v s' where
    "calculate_constraint_violations example_heap example_schedule = Inr (v, s')"
    "facilitator_overload v
       = int (card {f \<in> facilitators_used (items example_heap example_schedule).
                      total_load (items example_heap example_schedule) f > 4})"
    "facilitator_underload v
       = int (card {f \<in> facilitators_used (items example_heap example_schedule).
                      total_load (items example_heap example_schedule) f < 3
                      \<and> \<not> (f = Some ''Tyler''
                            \<and> total_load (items example_heap example_schedule) f < 2)})"
    by blast
  then have "\<exists>v s'. calculate_constraint_violations example_heap example_schedule = Inr (v, s')
         \<and> facilitator_overload v = 0 \<and> facilitator_underload v = 1"
    unfolding example_overloaded example_underloaded by auto
  with hs score fit show ?thesis by blast
qed

subsection \<open>Single-point crossover\<close>

lemma assignment_eta:
  "\<lparr>room = room (a::ActivityAssignment), time = time a, facilitator = facilitator a\<rparr> = a"
  by (cases a) simp

lemma copy_assignment_eq:
  "copy_assignment r h
     = (next_ref h, h\<lparr>cells := (cells h)(next_ref h := cells h r), next_ref := Suc (next_ref h)\<rparr>)"
  by (simp add: copy_assignment_def alloc_def assignment_eta)

lemma allocated_mono:
  "allocated h s \<Longrightarrow> next_ref h \<le> next_ref h' \<Longrightarrow> allocated h' s"
  by (auto simp: allocated_def)

lemma allocated_map_of:
  "allocated h s \<Longrightarrow> map_of (assignments s) name = Some r \<Longrightarrow> r < next_ref h"
  by (auto simp: allocated_def dest!: map_of_SomeD intro: rev_image_eqI)

lemma subscript_eq_Inr: "subscript d k = Inr v \<longleftrightarrow> map_of d k = Some v"
  by (simp add: subscript_def split: option.split)

lemma single_point_loop_props:
  assumes "single_point_loop c p1 p2 i names h = Inr (d, h')"
    and "allocated h p1" and "allocated h p2"
  shows "length d = length names
       \<and> next_ref h' = next_ref h + length names
       \<and> (\<forall>r < next_ref h. cells h' r = cells h r)
       \<and> (\<forall>j < length names.
             d ! j = (names ! j, next_ref h + j)
             \<and> (\<exists>r0. map_of (assignments (if i + int j \<le> c then p1 else p2)) (names ! j)
                         = Some r0
                      \<and> cells h' (next_ref h + j) = cells h r0))"
  using assms
proof (induction names arbitrary: i h d h')
  case Nil
  then show ?case by simp
next
  case (Cons n rest)
  let ?P = "if i \<le> c then p1 else p2"
  from Cons.prems(1) obtain r0 where
    s0: "subscript (assignments ?P) n = Inr r0"
    by (cases "subscript (assignments ?P) n") simp_all
  then have r0: "map_of (assignments ?P) n = Some r0"
    by (simp add: subscript_eq_Inr)
  define h1 where
    "h1 = h\<lparr>cells := (cells h)(next_ref h := cells h r0), next_ref := Suc (next_ref h)\<rparr>"
  have cp: "copy_assignment r0 h = (next_ref h, h1)"
    by (simp add: copy_assignment_eq h1_def)
  from Cons.prems(1) s0 cp obtain d' where
    rec: "single_point_loop c p1 p2 (i + 1) rest h1 = Inr (d', h')"
    and d: "d = (n, next_ref h) # d'"
    by (cases "single_point_loop c p1 p2 (i + 1) rest h1") auto
  have nr1: "next_ref h1 = Suc (next_ref h)" by (simp add: h1_def)
  have cells1: "cells h1 r = cells h r" if "r < next_ref h" for r
    using that by (simp add: h1_def)
  have cells1_new: "cells h1 (next_ref h) = cells h r0" by (simp add: h1_def)
  have r0_lt: "r0 < next_ref h"
    using allocated_map_of [of h ?P n r0] Cons.prems(2,3) r0 by (simp split: if_splits)
  have a1: "allocated h1 p1" "allocated h1 p2"
    using allocated_mono [OF Cons.prems(2), of h1] allocated_mono [OF Cons.prems(3), of h1] nr1
    by simp_all
  note IH = Cons.IH [OF rec a1]
  from IH have len: "length d' = length rest" by blast
  from IH have nr: "next_ref h' = next_ref h1 + length rest" by blast
  from IH have keep1: "\<forall>r < next_ref h1. cells h' r = cells h1 r" by blast
  from IH have at: "\<forall>j < length rest.
             d' ! j = (rest ! j, next_ref h1 + j)
             \<and> (\<exists>r0. map_of (assignments (if i + 1 + int j \<le> c then p1 else p2)) (rest ! j)
                         = Some r0
                      \<and> cells h' (next_ref h1 + j) = cells h1 r0)" by blast
  have keep: "\<forall>r < next_ref h. cells h' r = cells h r"
    using keep1 nr1 cells1 by simp
  have new: "cells h' (next_ref h) = cells h r0"
    using keep1 nr1 cells1_new by simp
  have content: "d ! j = ((n # rest) ! j, next_ref h + j)
             \<and> (\<exists>r0. map_of (assignments (if i + int j \<le> c then p1 else p2)) ((n # rest) ! j)
                         = Some r0
                      \<and> cells h' (next_ref h + j) = cells h r0)"
    if j: "j < length (n # rest)" for j
  proof (cases j)
    case 0
    then show ?thesis using r0 new d by simp
  next
    case (Suc j')
    with j have j': "j' < length rest" by simp
    from at j' obtain r1 where
      dj: "d' ! j' = (rest ! j', next_ref h1 + j')"
      and r1: "map_of (assignments (if i + 1 + int j' \<le> c then p1 else p2)) (rest ! j') = Some r1"
      and c1: "cells h' (next_ref h1 + j') = cells h1 r1"
      by blast
    have "r1 < next_ref h"
      using allocated_map_of [of h "if i + 1 + int j' \<le> c then p1 else p2" "rest ! j'" r1]
        Cons.prems(2,3) r1 by (simp split: if_splits)
    then have c2: "cells h1 r1 = cells h r1" by (rule cells1)
    have idx: "i + int (Suc j') = i + 1 + int j'" by simp
    have e1: "d ! Suc j' = ((n # rest) ! Suc j', next_ref h + Suc j')"
      using dj d nr1 by simp
    have e2: "map_of (assignments (if i + int (Suc j') \<le> c then p1 else p2))
                ((n # rest) ! Suc j') = Some r1"
      unfolding idx using r1 by simp
    have e3: "cells h' (next_ref h + Suc j') = cells h r1"
      using c1 c2 nr1 by simp
    show ?thesis
      unfolding Suc using e1 e2 e3 by blast
  qed
  have "length d = length (n # rest)" using len d by simp
  moreover have "next_ref h' = next_ref h + length (n # rest)" using nr nr1 by simp
  ultimately show ?case using keep content by blast
qed

lemma single_point_loop_total:
  assumes "set names \<subseteq> fst ` set (assignments p1)" "set names \<subseteq> fst ` set (assignments p2)"
  shows "\<exists>d h'. single_point_loop c p1 p2 i names h = Inr (d, h')"
  using assms
proof (induction names arbitrary: i h)
  case Nil
  then show ?case by simp
next
  case (Cons n rest)
  let ?P = "if i \<le> c then p1 else p2"
  from Cons.prems have "n \<in> fst ` set (assignments ?P)" by simp
  then have "\<exists>r0. subscript (assignments ?P) n = Inr r0"
    by (rule subscript_Inr)
  then obtain r0 where r0: "subscript (assignments ?P) n = Inr r0" ..
  obtain r' h1 where cp: "copy_assignment r0 h = (r', h1)" by (cases "copy_assignment r0 h")
  have sub: "set rest \<subseteq> fst ` set (assignments p1)" "set rest \<subseteq> fst ` set (assignments p2)"
    using Cons.prems by simp_all
  from Cons.IH [OF sub, of "i + 1" h1] obtain d' h' where
    "single_point_loop c p1 p2 (i + 1) rest h1 = Inr (d', h')" by blast
  then show ?case using r0 cp by simp
qed

lemma distinct_ALL_ACTIVITIES: "distinct ALL_ACTIVITIES"
  by (simp add: ALL_ACTIVITIES_eq)

lemma map_of_items:
  "map_of (items h s) name = map_option (cells h) (map_of (assignments s) name)"
  unfolding items_def by (induction "assignments s" arbitrary: s) (auto simp: map_of_map)

lemma map_of_nth:
  "distinct (map fst d) \<Longrightarrow> j < length d \<Longrightarrow> map_of d (fst (d ! j)) = Some (snd (d ! j))"
  by (simp add: map_of_eq_Some_iff)

lemma random_randint_range:
  "a \<le> b \<Longrightarrow> \<exists>c. random_randint a b g = Inr (c, stl g) \<and> a \<le> c \<and> c \<le> b"
proof -
  assume ab: "a \<le> b"
  have "shd g mod nat (b - a + 1) < nat (b - a + 1)"
    using ab by (intro mod_less_divisor) simp
  then have "int (shd g mod nat (b - a + 1)) \<le> b - a" using ab by linarith
  then show ?thesis using ab by (simp add: random_randint_def)
qed

lemma single_point_child:
  assumes loop: "single_point_loop c p1 p2 0 ALL_ACTIVITIES h = Inr (d, h')"
    and a1: "allocated h p1" and a2: "allocated h p2"
  shows "map fst d = ALL_ACTIVITIES"
    and "map snd d = map (\<lambda>j. next_ref h + j) [0..<length ALL_ACTIVITIES]"
    and "\<forall>r < next_ref h. cells h' r = cells h r"
    and "\<forall>j < length ALL_ACTIVITIES.
           map_of (items h' (new_Schedule d)) (ALL_ACTIVITIES ! j)
             = map_of (items h (if int j \<le> c then p1 else p2)) (ALL_ACTIVITIES ! j)"
proof -
  note props = single_point_loop_props [OF loop a1 a2]
  from props have len: "length d = length ALL_ACTIVITIES" by blast
  from props have at: "\<forall>j < length ALL_ACTIVITIES. d ! j = (ALL_ACTIVITIES ! j, next_ref h + j)"
    by simp
  from props have src: "\<forall>j < length ALL_ACTIVITIES.
      \<exists>r0. map_of (assignments (if int j \<le> c then p1 else p2)) (ALL_ACTIVITIES ! j) = Some r0
           \<and> cells h' (next_ref h + j) = cells h r0"
    by simp
  show fst_d: "map fst d = ALL_ACTIVITIES"
    by (rule nth_equalityI) (simp_all add: len at)
  show "map snd d = map (\<lambda>j. next_ref h + j) [0..<length ALL_ACTIVITIES]"
    by (rule nth_equalityI) (simp_all add: len at)
  from props show "\<forall>r < next_ref h. cells h' r = cells h r" by blast
  show "\<forall>j < length ALL_ACTIVITIES.
           map_of (items h' (new_Schedule d)) (ALL_ACTIVITIES ! j)
             = map_of (items h (if int j \<le> c then p1 else p2)) (ALL_ACTIVITIES ! j)"
  proof (intro allI impI)
    fix j assume j: "j < length ALL_ACTIVITIES"
    have dist: "distinct (map fst d)" using fst_d distinct_ALL_ACTIVITIES by simp
    have "map_of d (fst (d ! j)) = Some (snd (d ! j))"
      using map_of_nth [OF dist] j len by simp
    then have m: "map_of d (ALL_ACTIVITIES ! j) = Some (next_ref h + j)"
      using at j by simp
    from src j obtain r0 where
      r0: "map_of (assignments (if int j \<le> c then p1 else p2)) (ALL_ACTIVITIES ! j) = Some r0"
      and c0: "cells h' (next_ref h + j) = cells h r0"
      by blast
    show "map_of (items h' (new_Schedule d)) (ALL_ACTIVITIES ! j)
            = map_of (items h (if int j \<le> c then p1 else p2)) (ALL_ACTIVITIES ! j)"
      by (simp only: map_of_items r0 c0 m new_Schedule_def Schedule.simps option.map)
  qed
qed

lemma example_keys:
  "set ALL_ACTIVITIES \<subseteq> fst ` set (assignments example_schedule)"
  "set ALL_ACTIVITIES \<subseteq> fst ` set (assignments example_schedule_2)"
  by (simp_all add: example_schedule_def example_schedule_2_def new_Schedule_def ALL_ACTIVITIES_eq)

lemma example_allocated_2:
  "allocated example_heap_2 example_schedule" "allocated example_heap_2 example_schedule_2"
  by (simp_all add: allocated_def example_schedule_def example_schedule_2_def new_Schedule_def
      ALL_ACTIVITIES_eq example_heap_2_def heap_of_list_def example_assignments_def)

lemma example_first_assignment:
  "map_of (items example_heap_2 example_schedule) ''SLA101A''
     = Some (assignment ''Roman 201'' ''10 AM'' ''Glen'')"
  by (simp add: map_of_items example_schedule_def new_Schedule_def ALL_ACTIVITIES_eq
      example_heap_2_def heap_of_list_def example_assignments_def)

text \<open>
  Claim C10. When both parents have an assignment for every activity of the catalog and
  their objects are allocated, \<^verbatim>\<open>perform_single_point_crossover\<close> returns a child with the
  activities of the catalog, whose assignment objects are all new (distinct from each other
  and from every object of a parent); the parents' objects are unchanged. With the
  crossover point \<open>c\<close>, which lies between 0 and 10, the activity at position \<open>j\<close>
  of the catalog has the value of the first parent's assignment of that activity when
  \<open>j \<le> c\<close> and of the second parent's otherwise. So the first activity, SLA101A, always
  comes from the first parent.
\<close>

theorem single_point_crossover_copies:
  assumes k1: "set ALL_ACTIVITIES \<subseteq> fst ` set (assignments parent_1)"
    and k2: "set ALL_ACTIVITIES \<subseteq> fst ` set (assignments parent_2)"
    and a1: "allocated h parent_1" and a2: "allocated h parent_2"
  shows "\<exists>child h' g' c.
           perform_single_point_crossover parent_1 parent_2 h g = Inr (child, h', g')
           \<and> 0 \<le> c \<and> c \<le> 10
           \<and> map fst (assignments child) = ALL_ACTIVITIES
           \<and> distinct (map snd (assignments child))
           \<and> (\<forall>r \<in> snd ` set (assignments child).
                  r \<notin> snd ` set (assignments parent_1) \<and> r \<notin> snd ` set (assignments parent_2))
           \<and> (\<forall>r < next_ref h. cells h' r = cells h r)
           \<and> (\<forall>j < length ALL_ACTIVITIES.
                  map_of (items h' child) (ALL_ACTIVITIES ! j)
                    = map_of (items h (if int j \<le> c then parent_1 else parent_2))
                        (ALL_ACTIVITIES ! j))
           \<and> map_of (items h' child) ''SLA101A'' = map_of (items h parent_1) ''SLA101A''"
proof -
  obtain c where rnd: "random_randint 0 (int (length ALL_ACTIVITIES) - 1) g = Inr (c, stl g)"
    and c: "0 \<le> c" "c \<le> 10"
    using random_randint_range [of 0 "int (length ALL_ACTIVITIES) - 1" g]
    by (auto simp: length_ALL_ACTIVITIES)
  obtain d h' where loop: "single_point_loop c parent_1 parent_2 0 ALL_ACTIVITIES h = Inr (d, h')"
    using single_point_loop_total [OF k1 k2] by blast
  note ch = single_point_child [OF loop a1 a2]
  let ?child = "new_Schedule d"
  have res: "perform_single_point_crossover parent_1 parent_2 h g = Inr (?child, h', stl g)"
    by (simp add: perform_single_point_crossover_def rnd loop)
  have asg: "assignments ?child = d" by (simp add: new_Schedule_def)
  have dist: "distinct (map snd d)"
    unfolding ch(2) by (simp add: distinct_map inj_on_def)
  have fresh: "\<forall>r \<in> snd ` set d.
                 r \<notin> snd ` set (assignments parent_1) \<and> r \<notin> snd ` set (assignments parent_2)"
  proof
    fix r assume "r \<in> snd ` set d"
    then have "r \<in> set (map snd d)" by simp
    then have "next_ref h \<le> r" unfolding ch(2) by auto
    then show "r \<notin> snd ` set (assignments parent_1) \<and> r \<notin> snd ` set (assignments parent_2)"
      using a1 a2 unfolding allocated_def by fastforce
  qed
  have first: "map_of (items h' ?child) ''SLA101A'' = map_of (items h parent_1) ''SLA101A''"
  proof -
    have "0 < length ALL_ACTIVITIES" by (simp add: length_ALL_ACTIVITIES)
    with ch(4) have "map_of (items h' ?child) (ALL_ACTIVITIES ! 0)
            = map_of (items h (if int 0 \<le> c then parent_1 else parent_2)) (ALL_ACTIVITIES ! 0)"
      by blast
    then show ?thesis using c by (simp add: ALL_ACTIVITIES_eq)
  qed
  have f1: "map fst (assignments ?child) = ALL_ACTIVITIES"
    by (simp only: asg ch(1))
  have f2: "distinct (map snd (assignments ?child))"
    by (simp only: asg dist)
  have f3: "\<forall>r \<in> snd ` set (assignments ?child).
              r \<notin> snd ` set (assignments parent_1) \<and> r \<notin> snd ` set (assignments parent_2)"
    using fresh by (simp only: asg)
  show ?thesis
    apply (rule exI [where x = ?child])
    apply (rule exI [where x = h'])
    apply (rule exI [where x = "stl g"])
    apply (rule exI [where x = c])
    apply (intro conjI)
    apply (rule res)
    apply (rule c(1))
    apply (rule c(2))
    apply (rule f1)
    apply (rule f2)
    apply (rule f3)
    apply (rule ch(3))
    apply (rule ch(4))
    apply (rule first)
    done
qed

theorem single_point_crossover_copies_witness:
  "\<exists>child h' g'.
     perform_single_point_crossover example_schedule example_schedule_2 example_heap_2
       (sconst 0) = Inr (child, h', g')
     \<and> map fst (assignments child) = ALL_ACTIVITIES
     \<and> map_of (items h' child) ''SLA101A''
         = Some (assignment ''Roman 201'' ''10 AM'' ''Glen'')"
proof -
  from single_point_crossover_copies [OF example_keys example_allocated_2, of "sconst 0"]
  obtain child h' g' where
    "perform_single_point_crossover example_schedule example_schedule_2 example_heap_2
       (sconst 0) = Inr (child, h', g')"
    "map fst (assignments child) = ALL_ACTIVITIES"
    "map_of (items h' child) ''SLA101A''
       = map_of (items example_heap_2 example_schedule) ''SLA101A''"
    by blast
  then show ?thesis
    using example_first_assignment by auto
qed

subsection \<open>The fitness cache\<close>

lemma assignment_eqI:
  "room (a::ActivityAssignment) = room b \<Longrightarrow> time a = time b \<Longrightarrow> facilitator a = facilitator b
     \<Longrightarrow> a = b"
  by (cases a, cases b) simp

lemma items_eq_of_triples:
  "map fst a = map fst b \<Longrightarrow> triples a = triples b \<Longrightarrow> a = b"
proof (induction a arbitrary: b)
  case Nil
  then show ?case by simp
next
  case (Cons x a)
  then obtain y b' where b: "b = y # b'" by (cases b) auto
  from Cons.prems b have "fst x = fst y" "room (snd x) = room (snd y)"
    "time (snd x) = time (snd y)" "facilitator (snd x) = facilitator (snd y)"
    by (simp_all add: triples_def case_prod_beta)
  then have "x = y" by (simp add: prod_eq_iff assignment_eqI)
  moreover have "a = b'"
    using Cons.prems b by (intro Cons.IH) (simp_all add: triples_def)
  ultimately show ?case using b by simp
qed

lemma cache_sound_empty: "cache_sound hs Map.empty seen"
  by (simp add: cache_sound_def)

lemma cache_sound_mono: "cache_sound hs cache seen \<Longrightarrow> seen \<subseteq> seen' \<Longrightarrow> cache_sound hs cache seen'"
  unfolding cache_sound_def by (meson subsetD)

lemma complete_all_activities: "complete s \<Longrightarrow> map fst (items h s) = ALL_ACTIVITIES"
  by (simp add: complete_def map_fst_items)

lemma swapped_fitness: "compute_fitness (items example_heap swapped_schedule) = Inr (29 / 10)"
  by code_simp

lemma swapped_triples:
  "triples (items example_heap swapped_schedule) = triples (items example_heap example_schedule)"
  by (simp add: triples_def items_def swapped_schedule_def example_schedule_def new_Schedule_def
      ALL_ACTIVITIES_eq)

lemma example_schedule_2_complete: "complete example_schedule_2"
  by (simp add: complete_def example_schedule_2_def new_Schedule_def ALL_ACTIVITIES_eq)

text \<open>
  Claim C5. The memoized evaluator is to return on every schedule the value that the
  unmemoized computation gives for the assignments that the schedule has. The cache key is
  computed from the values of the dictionary in its own order, without the activity names.
  Here the example schedule is scored first, then a schedule that gives the same objects to
  the activities in another order: the second call finds the entry of the first and returns
  its score, \<open>31 / 10\<close>, where the computation from the assignments of the schedule gives
  \<open>29 / 10\<close>. The key function is the identity here, so no hash collision is involved.
\<close>

theorem memoized_fitness_stale_for_other_order:
  "calculate_schedule_fitness (\<lambda>x. x) example_heap example_schedule Map.empty
     = Inr (31 / 10, example_schedule\<lparr>fitness := Some (31 / 10)\<rparr>,
            [triples (items example_heap example_schedule) \<mapsto> 31 / 10])
   \<and> calculate_schedule_fitness (\<lambda>x. x) example_heap swapped_schedule
       [triples (items example_heap example_schedule) \<mapsto> 31 / 10]
     = Inr (31 / 10, swapped_schedule\<lparr>fitness := Some (31 / 10)\<rparr>,
            [triples (items example_heap example_schedule) \<mapsto> 31 / 10])
   \<and> compute_fitness (items example_heap swapped_schedule) = Inr (29 / 10)"
  by (simp add: calculate_schedule_fitness_def example_fitness swapped_fitness swapped_triples)

text \<open>
  Where the cache is right. Let the cache hold only scores of assignments that were
  evaluated (\<open>seen\<close>), each under its key; let these and the schedule to score list the
  activities in the order of the catalog, as the constructors of the program do; and let
  the key function not collide on them. Then \<^verbatim>\<open>calculate_schedule_fitness\<close> returns the
  score computed from the assignments that the schedule has in the store at the time of
  the call, whatever was mutated before, and the cache stays sound.
\<close>

lemma memoized_fitness_is_fresh:
  assumes sound: "cache_sound hs cache seen"
    and ordered: "\<forall>its \<in> seen. map fst its = ALL_ACTIVITIES"
    and s: "complete s"
    and inj: "inj_on hs (triples ` insert (items h s) seen)"
  shows "\<exists>v cache'. calculate_schedule_fitness hs h s cache = Inr (v, s\<lparr>fitness := Some v\<rparr>, cache')
           \<and> compute_fitness (items h s) = Inr v
           \<and> cache_sound hs cache' (insert (items h s) seen)"
proof (cases "cache (hs (triples (items h s)))")
  case None
  obtain v where v: "compute_fitness (items h s) = Inr v"
    using compute_fitness_total [OF complete_has_sections [OF s]] by blast
  let ?cache' = "cache(hs (triples (items h s)) \<mapsto> v)"
  have r: "calculate_schedule_fitness hs h s cache = Inr (v, s\<lparr>fitness := Some v\<rparr>, ?cache')"
    by (simp add: calculate_schedule_fitness_def None v)
  have "cache_sound hs ?cache' (insert (items h s) seen)"
    unfolding cache_sound_def
  proof (intro allI impI)
    fix k w assume kw: "?cache' k = Some w"
    show "\<exists>its \<in> insert (items h s) seen. hs (triples its) = k \<and> compute_fitness its = Inr w"
    proof (cases "k = hs (triples (items h s))")
      case True
      with kw v show ?thesis by simp
    next
      case False
      with kw have "cache k = Some w" by simp
      with sound show ?thesis unfolding cache_sound_def by blast
    qed
  qed
  with r v show ?thesis by blast
next
  case (Some w)
  from sound Some obtain its where its: "its \<in> seen"
    and key: "hs (triples its) = hs (triples (items h s))"
    and w: "compute_fitness its = Inr w"
    unfolding cache_sound_def by blast
  from inj key its have "triples its = triples (items h s)"
    by (simp add: inj_on_def)
  moreover have "map fst its = map fst (items h s)"
    using ordered its complete_all_activities [OF s] by simp
  ultimately have "its = items h s" by (rule items_eq_of_triples [rotated])
  with w have v: "compute_fitness (items h s) = Inr w" by simp
  have r: "calculate_schedule_fitness hs h s cache = Inr (w, s\<lparr>fitness := Some w\<rparr>, cache)"
    by (simp add: calculate_schedule_fitness_def Some)
  have "cache_sound hs cache (insert (items h s) seen)"
    using sound by (rule cache_sound_mono) auto
  with r v show ?thesis by blast
qed

lemma memoized_fitness_is_fresh_example:
  "\<exists>v cache'.
     calculate_schedule_fitness (\<lambda>x. x) example_heap_2 example_schedule_2
       [triples (items example_heap example_schedule) \<mapsto> 31 / 10]
       = Inr (v, example_schedule_2\<lparr>fitness := Some v\<rparr>, cache')
     \<and> compute_fitness (items example_heap_2 example_schedule_2) = Inr v"
proof -
  have h1: "cache_sound (\<lambda>x. x) [triples (items example_heap example_schedule) \<mapsto> 31 / 10]
              {items example_heap example_schedule}"
    by (simp add: cache_sound_def example_fitness)
  have h2: "\<forall>its \<in> {items example_heap example_schedule}. map fst its = ALL_ACTIVITIES"
    by (simp add: complete_all_activities [OF example_schedule_complete])
  have h4: "inj_on (\<lambda>x. x)
        (triples ` insert (items example_heap_2 example_schedule_2)
                     {items example_heap example_schedule})"
    by (rule inj_on_id2)
  from memoized_fitness_is_fresh [OF h1 h2 example_schedule_2_complete h4]
  show ?thesis by blast
qed

subsection \<open>The initial population\<close>

lemma generate_random_assignment_total:
  "\<exists>r h' g'. generate_random_assignment h g = Inr (r, h', g')"
  by (simp add: generate_random_assignment_def random_choice_nonempty [OF catalog_nonempty(1)]
      random_choice_nonempty [OF catalog_nonempty(2)]
      random_choice_nonempty [OF catalog_nonempty(3)] alloc_def)

lemma random_assignments_keys:
  "\<exists>d h' g'. random_assignments names h g = Inr (d, h', g') \<and> map fst d = names"
proof (induction names arbitrary: h g)
  case Nil
  show ?case by simp
next
  case (Cons n names)
  obtain r h1 g1 where a: "generate_random_assignment h g = Inr (r, h1, g1)"
    using generate_random_assignment_total by blast
  from Cons [of h1 g1] obtain d h2 g2 where
    "random_assignments names h1 g1 = Inr (d, h2, g2)" "map fst d = names" by blast
  then show ?case by (simp add: a)
qed

lemma generate_random_schedule_complete:
  "\<exists>s h' g'. generate_random_schedule h g = Inr (s, h', g') \<and> complete s"
proof -
  obtain d h' g' where "random_assignments (map fst ACTIVITY_DEFINITIONS) h g = Inr (d, h', g')"
    "map fst d = map fst ACTIVITY_DEFINITIONS"
    using random_assignments_keys by blast
  then show ?thesis
    by (simp add: generate_random_schedule_def complete_def new_Schedule_def ALL_ACTIVITIES_def)
qed

lemma population_loop_complete:
  "\<exists>population h' g'. population_loop k h g = Inr (population, h', g')
      \<and> length population = k \<and> (\<forall>s \<in> set population. complete s)"
proof (induction k arbitrary: h g)
  case 0
  show ?case by simp
next
  case (Suc k)
  obtain s h1 g1 where s: "generate_random_schedule h g = Inr (s, h1, g1)" "complete s"
    using generate_random_schedule_complete by blast
  from Suc [of h1 g1] obtain population h2 g2 where
    "population_loop k h1 g1 = Inr (population, h2, g2)" "length population = k"
    "\<forall>s \<in> set population. complete s" by blast
  then show ?case using s by simp
qed

lemma create_initial_population_small:
  "population_size cfg < 250 \<Longrightarrow> create_initial_population (population_size cfg) h g = Inl ValueError"
  by (simp add: create_initial_population_def)

lemma create_initial_population_ok:
  assumes "250 \<le> population_size cfg"
  shows "\<exists>population h' g'.
           create_initial_population (population_size cfg) h g = Inr (population, h', g')
           \<and> population_ok cfg population"
proof -
  obtain population h' g' where
    "population_loop (nat (population_size cfg)) h g = Inr (population, h', g')"
    "length population = nat (population_size cfg)" "\<forall>s \<in> set population. complete s"
    using population_loop_complete by blast
  then show ?thesis using assms
    by (simp add: create_initial_population_def population_ok_def)
qed

subsection \<open>Evaluation of a population\<close>

lemma calculate_schedule_fitness_total:
  assumes "complete s"
  shows "\<exists>v cache'. calculate_schedule_fitness hs h s cache
                      = Inr (v, s\<lparr>fitness := Some v\<rparr>, cache')"
proof (cases "cache (hs (triples (items h s)))")
  case None
  obtain v where "compute_fitness (items h s) = Inr v"
    using compute_fitness_total [OF complete_has_sections [OF assms]] by blast
  then show ?thesis by (simp add: calculate_schedule_fitness_def None)
next
  case (Some w)
  then show ?thesis by (simp add: calculate_schedule_fitness_def)
qed

lemma complete_fitness_update [simp]: "complete (s\<lparr>fitness := x\<rparr>) = complete s"
  by (simp add: complete_def)

lemma complete_violations_update [simp]: "complete (s\<lparr>violations := x\<rparr>) = complete s"
  by (simp add: complete_def)

lemma evaluate_loop_total:
  assumes "\<forall>s \<in> set population. complete s"
  shows "\<exists>scores population' cache'.
           evaluate_loop hs h population cache = Inr (scores, population', cache')
           \<and> length scores = length population
           \<and> length population' = length population
           \<and> (\<forall>s \<in> set population'. complete s)"
  using assms
proof (induction population arbitrary: cache)
  case Nil
  show ?case by simp
next
  case (Cons s population)
  from Cons.prems have cs: "complete s" by simp
  obtain v c1 where v: "calculate_schedule_fitness hs h s cache = Inr (v, s\<lparr>fitness := Some v\<rparr>, c1)"
    using calculate_schedule_fitness_total [OF cs] by blast
  from Cons.prems have rest: "\<forall>s \<in> set population. complete s" by simp
  from Cons.IH [OF rest, of c1] obtain scores population' c2 where
    "evaluate_loop hs h population c1 = Inr (scores, population', c2)"
    "length scores = length population" "length population' = length population"
    "\<forall>s \<in> set population'. complete s" by blast
  then show ?case using v cs by simp
qed

lemma evaluate_entire_population_total:
  assumes "\<forall>s \<in> set population. complete s"
  shows "\<exists>scores b a w population' cache'.
           evaluate_entire_population hs h population cache
             = Inr ((scores, b, a, w), population', cache')
           \<and> length scores = length population
           \<and> length population' = length population
           \<and> (\<forall>s \<in> set population'. complete s)"
proof -
  obtain scores population' cache' where
    e: "evaluate_loop hs h population cache = Inr (scores, population', cache')"
    and p: "length scores = length population" "length population' = length population"
      "\<forall>s \<in> set population'. complete s"
    using evaluate_loop_total [OF assms] by blast
  show ?thesis
  proof (cases "scores = []")
    case True
    then have "evaluate_entire_population hs h population cache
                 = Inr ((scores, 0, 0, 0), population', cache')"
      by (simp add: evaluate_entire_population_def e)
    with p show ?thesis by blast
  next
    case False
    then have "evaluate_entire_population hs h population cache
                 = Inr ((scores, Max (set scores), sum_list scores / real (length scores),
                         Min (set scores)), population', cache')"
      by (simp add: evaluate_entire_population_def e)
    with p show ?thesis by blast
  qed
qed

subsection \<open>Selection\<close>

lemma math_exp_nonneg: "0 \<le> math_exp x"
  by (simp add: math_exp_def)

lemma math_exp_0: "math_exp 0 = 1"
  by (simp add: math_exp_def)




lemma sum_list_exp_pos:
  assumes "xs \<noteq> []"
  shows "1 \<le> sum_list (map (\<lambda>x. math_exp (x - Max (set xs))) (xs::real list))"
proof -
  let ?m = "Max (set xs)"
  have "?m \<in> set xs" using assms by simp
  then obtain ys zs where xs: "xs = ys @ ?m # zs"
    by (auto dest: split_list)
  have "0 \<le> sum_list (map (\<lambda>x. math_exp (x - ?m)) ys)"
    "0 \<le> sum_list (map (\<lambda>x. math_exp (x - ?m)) zs)"
    by (rule sum_list_nonneg, auto simp: math_exp_nonneg)+
  moreover have "sum_list (map (\<lambda>x. math_exp (x - ?m)) xs)
      = sum_list (map (\<lambda>x. math_exp (x - ?m)) ys) + (math_exp (?m - ?m)
         + sum_list (map (\<lambda>x. math_exp (x - ?m)) zs))"
    by (subst xs) simp
  ultimately show ?thesis by (simp add: math_exp_0)
qed

lemma softmax_length:
  "length (calculate_softmax_probabilities scores) = length scores"
  by (simp add: calculate_softmax_probabilities_def Let_def)

lemma sum_list_divide:
  "sum_list (map (\<lambda>x. x / (t::real)) xs) = sum_list xs / t"
  by (induction xs) (simp_all add: add_divide_distrib)

lemma softmax_normalised:
  assumes "scores \<noteq> []"
  shows "calculate_softmax_probabilities scores
           = map (\<lambda>score. math_exp (score - Max (set scores))
                       / sum_list (map (\<lambda>x. math_exp (x - Max (set scores))) scores)) scores"
proof -
  have "1 \<le> sum_list (map (\<lambda>x. math_exp (x - Max (set scores))) scores)"
    using assms by (rule sum_list_exp_pos)
  then have "sum_list (map (\<lambda>x. math_exp (x - Max (set scores))) scores) \<noteq> 0" by simp
  then show ?thesis
    using assms by (simp add: calculate_softmax_probabilities_def Let_def comp_def)
qed

lemma softmax_sum:
  assumes "scores \<noteq> []"
  shows "sum_list (calculate_softmax_probabilities scores) = 1"
proof -
  let ?e = "map (\<lambda>score. math_exp (score - Max (set scores))) scores"
  have pos: "1 \<le> sum_list ?e" using assms by (rule sum_list_exp_pos)
  have "calculate_softmax_probabilities scores = map (\<lambda>x. x / sum_list ?e) ?e"
    using softmax_normalised [OF assms] by (simp add: comp_def)
  then have "sum_list (calculate_softmax_probabilities scores) = sum_list ?e / sum_list ?e"
    by (simp only: sum_list_divide)
  then show ?thesis using pos by simp
qed

lemma accumulate_length: "length (accumulate acc ws) = length ws"
  by (induction ws arbitrary: acc) simp_all

lemma accumulate_last: "ws \<noteq> [] \<Longrightarrow> last (accumulate acc ws) = acc + sum_list ws"
proof (induction ws arbitrary: acc)
  case Nil
  then show ?case by simp
next
  case (Cons w ws)
  show ?case
  proof (cases "ws = []")
    case True
    then show ?thesis by simp
  next
    case False
    then have "accumulate (acc + w) ws \<noteq> []"
      using accumulate_length [of "acc + w" ws] by (metis length_0_conv)
    then show ?thesis using Cons.IH [OF False, of "acc + w"] by simp
  qed
qed

lemma bisect_le: "bisect cum x hi \<le> hi"
proof -
  have "length (takeWhile (\<lambda>c. c \<le> x) (take hi cum)) \<le> length (take hi cum)"
    by (rule length_takeWhile_le)
  then show ?thesis by (simp add: bisect_def)
qed

lemma random_choices_one_total:
  assumes "population \<noteq> []" and "length weights = length population"
    and "0 < sum_list weights"
  shows "\<exists>x g'. random_choices_one population weights g = Inr (x, g') \<and> x \<in> set population"
proof -
  have w: "weights \<noteq> []" using assms(1,2) by auto
  have len: "length (accumulate 0 weights) = length population"
    using assms(2) by (simp add: accumulate_length)
  have ne: "accumulate 0 weights \<noteq> []" using len assms(1) by auto
  have pos: "\<not> last (accumulate 0 weights) \<le> 0"
    using accumulate_last [OF w, of 0] assms(3) by simp
  let ?i = "bisect (accumulate 0 weights)
              (fst (random_random g) * last (accumulate 0 weights)) (length population - 1)"
  have "?i \<le> length population - 1" by (rule bisect_le)
  then have "?i < length population" using assms(1) by (cases population) simp_all
  then have mem: "population ! ?i \<in> set population" by (rule nth_mem)
  have "random_choices_one population weights g = Inr (population ! ?i, snd (random_random g))"
    using len ne pos by (simp add: random_choices_one_def Let_def case_prod_beta)
  with mem show ?thesis by blast
qed

lemma select_pairs_loop_total:
  assumes "population \<noteq> []" and "length weights = length population"
    and "0 < sum_list weights"
  shows "\<exists>pairs g'. select_pairs_loop population weights k g = Inr (pairs, g')
           \<and> length pairs = k
           \<and> (\<forall>p \<in> set pairs. fst p \<in> set population \<and> snd p \<in> set population)"
proof (induction k arbitrary: g)
  case 0
  show ?case by simp
next
  case (Suc k)
  obtain a g1 where a: "random_choices_one population weights g = Inr (a, g1)"
    "a \<in> set population"
    using random_choices_one_total [OF assms] by blast
  obtain b g2 where b: "random_choices_one population weights g1 = Inr (b, g2)"
    "b \<in> set population"
    using random_choices_one_total [OF assms] by blast
  from Suc [of g2] obtain pairs g3 where
    "select_pairs_loop population weights k g2 = Inr (pairs, g3)" "length pairs = k"
    "\<forall>p \<in> set pairs. fst p \<in> set population \<and> snd p \<in> set population" by blast
  then show ?case using a b by simp
qed

subsection \<open>Reproduction\<close>

lemma complete_keys: "complete s \<Longrightarrow> set ALL_ACTIVITIES \<subseteq> fst ` set (assignments s)"
proof -
  assume "complete s"
  then have "set (map fst (assignments s)) = set ALL_ACTIVITIES" by (simp add: complete_def)
  then show ?thesis by simp
qed

lemma single_point_loop_keys:
  "single_point_loop c p1 p2 i names h = Inr (d, h') \<Longrightarrow> map fst d = names"
proof (induction names arbitrary: i h d h')
  case Nil
  then show ?case by simp
next
  case (Cons n rest)
  let ?P = "if i \<le> c then p1 else p2"
  from Cons.prems obtain r0 where
    s0: "subscript (assignments ?P) n = Inr r0"
    by (cases "subscript (assignments ?P) n") simp_all
  obtain r' h1 where cp: "copy_assignment r0 h = (r', h1)" by (cases "copy_assignment r0 h")
  from Cons.prems s0 cp obtain d' where
    rec: "single_point_loop c p1 p2 (i + 1) rest h1 = Inr (d', h')"
    and d: "d = (n, r') # d'"
    by (cases "single_point_loop c p1 p2 (i + 1) rest h1") auto
  from Cons.IH [OF rec] d show ?case by simp
qed

lemma single_point_crossover_complete:
  assumes "complete p1" "complete p2"
  shows "\<exists>child h' g'. perform_single_point_crossover p1 p2 h g = Inr (child, h', g')
           \<and> complete child"
proof -
  have "(0::int) \<le> int (length ALL_ACTIVITIES) - 1" by (simp add: length_ALL_ACTIVITIES)
  then obtain c where rnd: "random_randint 0 (int (length ALL_ACTIVITIES) - 1) g = Inr (c, stl g)"
    using random_randint_range [of 0 "int (length ALL_ACTIVITIES) - 1" g] by blast
  obtain d h' where loop: "single_point_loop c p1 p2 0 ALL_ACTIVITIES h = Inr (d, h')"
    using single_point_loop_total [OF complete_keys [OF assms(1)] complete_keys [OF assms(2)]]
    by blast
  have "map fst d = ALL_ACTIVITIES" using loop by (rule single_point_loop_keys)
  then have "complete (new_Schedule d)" by (simp add: complete_def new_Schedule_def)
  moreover have "perform_single_point_crossover p1 p2 h g = Inr (new_Schedule d, h', stl g)"
    by (simp add: perform_single_point_crossover_def rnd loop)
  ultimately show ?thesis by blast
qed

lemma uniform_loop_keys:
  assumes "set names \<subseteq> fst ` set (assignments p1)" "set names \<subseteq> fst ` set (assignments p2)"
  shows "\<exists>d h' g'. uniform_loop q p1 p2 names h g = Inr (d, h', g') \<and> map fst d = names"
  using assms
proof (induction names arbitrary: h g)
  case Nil
  then show ?case by simp
next
  case (Cons n rest)
  obtain u g1 where u: "random_random g = (u, g1)" by (cases "random_random g")
  let ?P = "if u < q then p2 else p1"
  from Cons.prems have "n \<in> fst ` set (assignments ?P)" by simp
  then have "\<exists>r0. subscript (assignments ?P) n = Inr r0"
    by (rule subscript_Inr)
  then obtain r0 where r0: "subscript (assignments ?P) n = Inr r0" ..
  obtain r' h1 where cp: "copy_assignment r0 h = (r', h1)" by (cases "copy_assignment r0 h")
  have sub: "set rest \<subseteq> fst ` set (assignments p1)" "set rest \<subseteq> fst ` set (assignments p2)"
    using Cons.prems by simp_all
  from Cons.IH [OF sub, of h1 g1] obtain d' h' g' where
    "uniform_loop q p1 p2 rest h1 g1 = Inr (d', h', g')" "map fst d' = rest" by blast
  then show ?case using u r0 cp by simp
qed

lemma uniform_crossover_complete:
  assumes "complete p1" "complete p2"
  shows "\<exists>child h' g'. perform_uniform_crossover p1 p2 q h g = Inr (child, h', g')
           \<and> complete child"
proof -
  obtain d h' g' where loop: "uniform_loop q p1 p2 ALL_ACTIVITIES h g = Inr (d, h', g')"
    and k: "map fst d = ALL_ACTIVITIES"
    using uniform_loop_keys [OF complete_keys [OF assms(1)] complete_keys [OF assms(2)]]
    by blast
  have "complete (new_Schedule d)" using k by (simp add: complete_def new_Schedule_def)
  moreover have "perform_uniform_crossover p1 p2 q h g = Inr (new_Schedule d, h', g')"
    by (simp add: perform_uniform_crossover_def loop)
  ultimately show ?thesis by blast
qed

lemma reproduction_loop_total:
  assumes "\<forall>p \<in> set pairs. complete (fst p) \<and> complete (snd p)"
  shows "\<exists>offspring h' g'. reproduction_loop method rate pairs h g = Inr (offspring, h', g')
           \<and> length offspring = length pairs
           \<and> (\<forall>s \<in> set offspring. complete s)"
  using assms
proof (induction pairs arbitrary: h g)
  case Nil
  show ?case by simp
next
  case (Cons p pairs)
  obtain pa pb where p: "p = (pa, pb)" by (cases p)
  from Cons.prems p have cp: "complete pa" "complete pb" by simp_all
  obtain child h1 g1 where
    x: "(if method = ''uniform'' then perform_uniform_crossover pa pb 0.5 h g
         else perform_single_point_crossover pa pb h g) = Inr (child, h1, g1)"
    and cc: "complete child"
    using uniform_crossover_complete [OF cp, where q = "0.5" and h = h and g = g]
      single_point_crossover_complete [OF cp, where h = h and g = g]
    by (cases "method = ''uniform''") auto
  obtain h2 g2 where m: "apply_mutation child rate h1 g1 = Inr (child\<lparr>fitness := None\<rparr>, h2, g2)"
    using apply_mutation_result by blast
  from Cons.prems have rest: "\<forall>p \<in> set pairs. complete (fst p) \<and> complete (snd p)" by simp
  from Cons.IH [OF rest, of h2 g2] obtain offspring h3 g3 where
    "reproduction_loop method rate pairs h2 g2 = Inr (offspring, h3, g3)"
    "length offspring = length pairs" "\<forall>s \<in> set offspring. complete s" by blast
  then show ?case using x m cc unfolding p by simp
qed

subsection \<open>Elitism and the next generation\<close>

lemma copy_assignments_keys:
  "map fst (fst (copy_assignments d h)) = map fst d"
  by (induction d arbitrary: h) (auto simp: case_prod_beta)

lemma create_copy_complete: "complete (fst (create_copy s h)) = complete s"
  by (simp add: create_copy_def case_prod_beta new_Schedule_def complete_def
      copy_assignments_keys)

lemma copy_schedules_props:
  "length (fst (copy_schedules xs h)) = length xs
   \<and> ((\<forall>s \<in> set xs. complete s) \<longrightarrow> (\<forall>s \<in> set (fst (copy_schedules xs h)). complete s))"
proof (induction xs arbitrary: h)
  case Nil
  show ?case by simp
next
  case (Cons x xs)
  show ?case
    using Cons [of "snd (create_copy x h)"] create_copy_complete [of x h]
    by (simp add: case_prod_beta)
qed

lemma length_slice_to:
  "length (slice_to k xs)
     = (if 0 \<le> k then min (nat k) (length xs) else nat (int (length xs) + k))"
  by (auto simp: slice_to_def)

lemma set_slice_to: "set (slice_to k xs) \<subseteq> set xs"
  by (auto simp: slice_to_def dest: in_set_takeD)

lemma select_best_schedules_props:
  assumes "length scores = length population" "\<forall>s \<in> set population. complete s"
  shows "length (fst (select_best_schedules population scores k h))
           = (if 0 \<le> k then min (nat k) (length population)
              else nat (int (length population) + k))"
    and "\<forall>s \<in> set (fst (select_best_schedules population scores k h)). complete s"
proof -
  let ?pairs = "sort_key (\<lambda>pair. - snd pair) (zip population scores)"
  let ?top = "map fst (slice_to k ?pairs)"
  have len: "length ?pairs = length population" using assms(1) by simp
  have "set ?top \<subseteq> fst ` set ?pairs" using set_slice_to [of k ?pairs] by auto
  also have "\<dots> \<subseteq> set population" by (auto dest: set_zip_leftD)
  finally have top: "\<forall>s \<in> set ?top. complete s" using assms(2) by auto
  show "length (fst (select_best_schedules population scores k h))
           = (if 0 \<le> k then min (nat k) (length population)
              else nat (int (length population) + k))"
    using copy_schedules_props [of ?top h] len
    by (simp add: select_best_schedules_def Let_def length_slice_to)
  show "\<forall>s \<in> set (fst (select_best_schedules population scores k h)). complete s"
    using copy_schedules_props [of ?top h] top
    by (simp add: select_best_schedules_def Let_def)
qed

lemma assemble_next_generation_length:
  assumes "length elites = (if 0 \<le> e then min (nat e) n else nat (int n + e))"
    and "length offspring = nat (P - e)" and "int n = P"
  shows "int (length (assemble_next_generation P elites offspring)) = P"
proof -
  have P0: "0 \<le> P" using assms(3) by simp
  consider (over) "int (length (elites @ offspring)) > P"
    | (under) "int (length (elites @ offspring)) < P"
    | (exact) "int (length (elites @ offspring)) = P" by linarith
  then show ?thesis
  proof cases
    case over
    then have "assemble_next_generation P elites offspring = slice_to P (elites @ offspring)"
      by (simp add: assemble_next_generation_def Let_def)
    then show ?thesis using over P0 by (simp add: length_slice_to)
  next
    case under
    have False
    proof (cases "0 \<le> e")
      case True
      then show False using under assms by (simp split: if_splits)
    next
      case False
      then show False using under assms P0 by (simp split: if_splits)
    qed
    then show ?thesis ..
  next
    case exact
    then have "assemble_next_generation P elites offspring = elites @ offspring"
      by (simp add: assemble_next_generation_def Let_def)
    then show ?thesis using exact by simp
  qed
qed

lemma assemble_next_generation_set:
  "set (assemble_next_generation P elites offspring) \<subseteq> set elites \<union> set offspring"
  using set_slice_to [of P "elites @ offspring"]
    set_slice_to [of "P - int (length (elites @ offspring))" offspring]
  by (auto simp: assemble_next_generation_def Let_def)

lemma reproduce_generation_ok:
  assumes ok: "population_ok cfg (current_population st)"
    and pos: "0 < population_size cfg"
    and scores: "length scores = length (current_population st)"
  shows "\<exists>st'. reproduce_generation cfg g imp scores st = Inr st'
           \<and> population_ok cfg (current_population st')
           \<and> current_mutation_rate st'
               = adapt_mutation_rate cfg g imp (current_mutation_rate st)
           \<and> generation_history st' = generation_history st
           \<and> total_generations_run st' = total_generations_run st
           \<and> previous_average_fitness st' = previous_average_fitness st"
proof -
  let ?pop = "current_population st"
  let ?w = "calculate_softmax_probabilities scores"
  let ?rate = "adapt_mutation_rate cfg g imp (current_mutation_rate st)"
  from ok have len: "int (length ?pop) = population_size cfg"
    and comp: "\<forall>s \<in> set ?pop. complete s"
    by (simp_all add: population_ok_def)
  from len pos have ne: "?pop \<noteq> []" by auto
  then have sne: "scores \<noteq> []" using scores by auto
  have wl: "length ?w = length ?pop" using scores by (simp add: softmax_length)
  have ws: "0 < sum_list ?w" using softmax_sum [OF sne] by simp
  obtain pairs g1 where
    sel: "select_pairs_loop ?pop ?w (nat (population_size cfg - elitism_count cfg))
            (random_state st) = Inr (pairs, g1)"
    and pl: "length pairs = nat (population_size cfg - elitism_count cfg)"
    and pm: "\<forall>p \<in> set pairs. fst p \<in> set ?pop \<and> snd p \<in> set ?pop"
    using select_pairs_loop_total [OF ne wl ws] by blast
  from pm comp have pc: "\<forall>p \<in> set pairs. complete (fst p) \<and> complete (snd p)" by blast
  obtain offspring h2 g2 where
    rep: "reproduction_loop (crossover_method cfg) ?rate pairs (store st) g1
            = Inr (offspring, h2, g2)"
    and ol: "length offspring = length pairs"
    and oc: "\<forall>s \<in> set offspring. complete s"
    using reproduction_loop_total [OF pc] by blast
  let ?el = "select_best_schedules ?pop scores (elitism_count cfg) h2"
  note elp = select_best_schedules_props [OF scores comp, of "elitism_count cfg" h2]
  let ?next = "assemble_next_generation (population_size cfg) (fst ?el) offspring"
  have nl: "int (length ?next) = population_size cfg"
    by (rule assemble_next_generation_length [where e = "elitism_count cfg"
          and n = "length ?pop"]) (simp_all add: elp(1) ol pl len)
  have nc: "\<forall>s \<in> set ?next. complete s"
    using assemble_next_generation_set [of "population_size cfg" "fst ?el" offspring] elp(2) oc
    by blast
  have "reproduce_generation cfg g imp scores st
          = Inr (st\<lparr>current_population := ?next, current_mutation_rate := ?rate,
                     store := snd ?el, random_state := g2\<rparr>)"
    by (simp add: reproduce_generation_def Let_def select_parent_pairs_def sel rep
        case_prod_beta)
  moreover have "population_ok cfg ?next" using nl nc by (simp add: population_ok_def)
  ultimately show ?thesis by simp
qed

lemma evaluate_generation_ok:
  assumes ok: "population_ok cfg (current_population st)"
  shows "\<exists>st1 scores r.
           evaluate_generation hs g st = Inr (st1, scores, improvement r)
           \<and> population_ok cfg (current_population st1)
           \<and> length scores = length (current_population st1)
           \<and> current_mutation_rate st1 = current_mutation_rate st
           \<and> total_generations_run st1 = g + 1
           \<and> generation_history st1 = generation_history st @ [r]
           \<and> generation r = g
           \<and> mutation_rate r = current_mutation_rate st
           \<and> improvement r = improvement_percentage (previous_average_fitness st) (avg r)
           \<and> previous_average_fitness st1 = Some (avg r)"
proof -
  from ok have len: "int (length (current_population st)) = population_size cfg"
    and comp: "\<forall>s \<in> set (current_population st). complete s"
    by (simp_all add: population_ok_def)
  obtain scores b a w population' cache' where
    e: "evaluate_entire_population hs (store st) (current_population st) (fitness_cache st)
          = Inr ((scores, b, a, w), population', cache')"
    and sl: "length scores = length (current_population st)"
    and pl: "length population' = length (current_population st)"
    and pc: "\<forall>s \<in> set population'. complete s"
    using evaluate_entire_population_total [OF comp] by blast
  let ?imp = "improvement_percentage (previous_average_fitness st) a"
  let ?r = "\<lparr>generation = g, best = b, avg = a, worst = w, improvement = ?imp,
             mutation_rate = current_mutation_rate st\<rparr>"
  let ?st1 = "st\<lparr>current_population := population', fitness_cache := cache',
                 total_generations_run := g + 1, previous_average_fitness := Some a,
                 generation_history := generation_history st @ [?r]\<rparr>"
  have "evaluate_generation hs g st = Inr (?st1, scores, improvement ?r)"
    by (simp add: evaluate_generation_def e Let_def)
  moreover have "population_ok cfg (current_population ?st1)"
    using pl pc len by (simp add: population_ok_def)
  ultimately show ?thesis
    apply (intro exI [where x = ?st1] exI [where x = scores] exI [where x = ?r])
    apply (simp add: sl pl)
    done
qed

subsection \<open>The evolution loop\<close>

lemma evolution_loop_trace:
  assumes "population_ok cfg (current_population st)" and "0 < population_size cfg"
  shows "\<exists>st' new. evolution_loop hs cfg g st = Inr st'
           \<and> population_ok cfg (current_population st')
           \<and> generation_history st' = generation_history st @ new
           \<and> trace_from cfg g (current_mutation_rate st) (previous_average_fitness st) new
                (current_mutation_rate st')
           \<and> total_generations_run st'
               = (if new = [] then total_generations_run st else g + int (length new))"
  using assms
proof (induction "nat (maximum_generations cfg - g)" arbitrary: g st rule: less_induct)
  case less
  note ok = less.prems(1) and pos = less.prems(2)
  show ?case
  proof (cases "g < maximum_generations cfg")
    case False
    then have "evolution_loop hs cfg g st = Inr st"
      by (simp add: evolution_loop.simps [of hs cfg g st])
    moreover have "trace_from cfg g (current_mutation_rate st) (previous_average_fitness st) []
                     (current_mutation_rate st)"
      using False by simp
    moreover have "generation_history st = generation_history st @ []" by simp
    moreover have "total_generations_run st
                     = (if [] = ([]::generation_record list) then total_generations_run st
                        else g + int (length ([]::generation_record list)))" by simp
    ultimately show ?thesis
      using ok by blast
  next
    case True
    obtain st1 scores r where
      ev: "evaluate_generation hs g st = Inr (st1, scores, improvement r)"
      and ok1: "population_ok cfg (current_population st1)"
      and sl: "length scores = length (current_population st1)"
      and rate1: "current_mutation_rate st1 = current_mutation_rate st"
      and tot1: "total_generations_run st1 = g + 1"
      and hist1: "generation_history st1 = generation_history st @ [r]"
      and gen: "generation r = g"
      and mr: "mutation_rate r = current_mutation_rate st"
      and imp: "improvement r = improvement_percentage (previous_average_fitness st) (avg r)"
      and prev1: "previous_average_fitness st1 = Some (avg r)"
      using evaluate_generation_ok [OF ok, of hs g] by blast
    show ?thesis
    proof (cases "should_terminate cfg g (improvement r)")
      case stop: True
      have "evolution_loop hs cfg g st = Inr st1"
        using True stop by (simp add: evolution_loop.simps [of hs cfg g st] ev)
      moreover have "trace_from cfg g (current_mutation_rate st) (previous_average_fitness st)
                       [r] (current_mutation_rate st1)"
        using True stop gen mr imp rate1 by simp
      moreover have "total_generations_run st1
                       = (if [r] = [] then total_generations_run st else g + int (length [r]))"
        using tot1 by simp
      ultimately show ?thesis
        using ok1 hist1 by blast
    next
      case go: False
      obtain st2 where
        rp: "reproduce_generation cfg g (improvement r) scores st1 = Inr st2"
        and ok2: "population_ok cfg (current_population st2)"
        and rate2: "current_mutation_rate st2
                      = adapt_mutation_rate cfg g (improvement r) (current_mutation_rate st1)"
        and hist2: "generation_history st2 = generation_history st1"
        and tot2: "total_generations_run st2 = total_generations_run st1"
        and prev2: "previous_average_fitness st2 = previous_average_fitness st1"
        using reproduce_generation_ok [OF ok1 pos sl, of g "improvement r"] by blast
      have smaller: "nat (maximum_generations cfg - (g + 1)) < nat (maximum_generations cfg - g)"
        using True by simp
      from less.hyps [OF smaller ok2 pos] obtain st' new where
        lp: "evolution_loop hs cfg (g + 1) st2 = Inr st'"
        and ok': "population_ok cfg (current_population st')"
        and hist': "generation_history st' = generation_history st2 @ new"
        and tr': "trace_from cfg (g + 1) (current_mutation_rate st2)
                    (previous_average_fitness st2) new (current_mutation_rate st')"
        and tot': "total_generations_run st'
                     = (if new = [] then total_generations_run st2 else g + 1 + int (length new))"
        by blast
      have "evolution_loop hs cfg g st = Inr st'"
        using True go by (simp add: evolution_loop.simps [of hs cfg g st] ev rp lp)
      moreover have "trace_from cfg g (current_mutation_rate st) (previous_average_fitness st)
                       (r # new) (current_mutation_rate st')"
        using True go gen mr imp tr' rate2 rate1 prev2 prev1 by simp
      moreover have "generation_history st' = generation_history st @ (r # new)"
        using hist' hist2 hist1 by simp
      moreover have "total_generations_run st'
                       = (if r # new = [] then total_generations_run st
                          else g + int (length (r # new)))"
        using tot' tot2 tot1 by simp
      ultimately show ?thesis
        using ok' by blast
    qed
  qed
qed

subsection \<open>The whole run\<close>

lemma max_index_loop_bound:
  "best_i < i \<Longrightarrow> max_index_loop best_i best_v i vs < i + length vs"
proof (induction vs arbitrary: best_i best_v i)
  case Nil
  then show ?case by simp
next
  case (Cons v vs)
  have a: "max_index_loop i v (Suc i) vs < Suc i + length vs"
    by (rule Cons.IH) simp
  have b: "max_index_loop best_i best_v (Suc i) vs < Suc i + length vs"
    by (rule Cons.IH) (use Cons.prems in simp)
  show ?case using a b by simp
qed

lemma max_index_total:
  "scores \<noteq> [] \<Longrightarrow> \<exists>i. max_index scores = Inr i \<and> i < length scores"
proof (cases scores)
  case Nil
  assume "scores \<noteq> []"
  with Nil show ?thesis by simp
next
  case (Cons v vs)
  have "max_index_loop 0 v 1 vs < 1 + length vs"
    by (rule max_index_loop_bound) simp
  then show ?thesis using Cons by (simp add: max_index_def)
qed

lemma calculate_constraint_violations_total:
  assumes "complete s"
  shows "\<exists>v. calculate_constraint_violations h s = Inr (v, s\<lparr>violations := Some v\<rparr>)"
proof -
  obtain v where "count_violations (items h s) = Inr v"
    using count_violations_total [OF complete_has_sections [OF assms]] by blast
  then show ?thesis by (simp add: calculate_constraint_violations_def)
qed

lemma run_optimization_trace:
  assumes big: "250 \<le> population_size cfg"
  shows "\<exists>res. run_optimization hs cfg cache h g = Inr res
           \<and> trace_from cfg 0 (initial_mutation_probability cfg) None (history res)
                (final_mutation_rate res)
           \<and> generations_run res = int (length (history res))
           \<and> int (length (final_population res)) = population_size cfg"
proof -
  have pos: "0 < population_size cfg" using big by simp
  obtain population h1 g1 where
    init: "create_initial_population (population_size cfg) h g = Inr (population, h1, g1)"
    and ok0: "population_ok cfg population"
    using create_initial_population_ok [OF big] by blast
  let ?st0 = "\<lparr>current_population = population,
               current_mutation_rate = initial_mutation_probability cfg,
               generation_history = [], total_generations_run = 0,
               previous_average_fitness = None,
               store = h1, random_state = g1, fitness_cache = cache\<rparr>"
  have ok0': "population_ok cfg (current_population ?st0)" using ok0 by simp
  from evolution_loop_trace [OF ok0' pos, of hs 0] obtain st new where
    lp: "evolution_loop hs cfg 0 ?st0 = Inr st"
    and ok: "population_ok cfg (current_population st)"
    and hist: "generation_history st = generation_history ?st0 @ new"
    and tr: "trace_from cfg 0 (current_mutation_rate ?st0) (previous_average_fitness ?st0) new
               (current_mutation_rate st)"
    and tot: "total_generations_run st
                = (if new = [] then total_generations_run ?st0 else 0 + int (length new))"
    by blast
  from ok have len: "int (length (current_population st)) = population_size cfg"
    and comp: "\<forall>s \<in> set (current_population st). complete s"
    by (simp_all add: population_ok_def)
  obtain scores b a w population' cache' where
    ev: "evaluate_entire_population hs (store st) (current_population st) (fitness_cache st)
           = Inr ((scores, b, a, w), population', cache')"
    and sl: "length scores = length (current_population st)"
    and pl: "length population' = length (current_population st)"
    and pc: "\<forall>s \<in> set population'. complete s"
    using evaluate_entire_population_total [OF comp] by blast
  have "scores \<noteq> []" using sl len pos by auto
  then obtain i where mi: "max_index scores = Inr i" and il: "i < length scores"
    using max_index_total by blast
  have "population' ! i \<in> set population'" using il sl pl by simp
  then have "complete (population' ! i)" using pc by blast
  then obtain v where
    cv: "calculate_constraint_violations (store st) (population' ! i)
           = Inr (v, (population' ! i)\<lparr>violations := Some v\<rparr>)"
    using calculate_constraint_violations_total by blast
  let ?res = "\<lparr>best_schedule = (population' ! i)\<lparr>violations := Some v\<rparr>,
               history = generation_history st,
               final_mutation_rate = current_mutation_rate st,
               generations_run = total_generations_run st,
               final_best = b, final_average = a, final_worst = w,
               final_population = population'[i := (population' ! i)\<lparr>violations := Some v\<rparr>],
               final_store = store st\<rparr>"
  have r: "run_optimization hs cfg cache h g = Inr ?res"
    by (simp add: run_optimization_def init lp ev mi cv)
  have t: "trace_from cfg 0 (initial_mutation_probability cfg) None (history ?res)
             (final_mutation_rate ?res)"
    using tr hist by simp
  have gr: "generations_run ?res = int (length (history ?res))"
    using tot hist by simp
  have fp: "int (length (final_population ?res)) = population_size cfg"
    using pl len by simp
  from r t gr fp show ?thesis by blast
qed

lemma run_optimization_small:
  "population_size cfg < 250 \<Longrightarrow> run_optimization hs cfg cache h g = Inl ValueError"
  by (simp add: run_optimization_def create_initial_population_def)

subsection \<open>What the course of the loop says about the records\<close>

lemma trace_from_Cons_go:
  assumes "trace_from cfg g rate prev (r # rs) fin"
    and "rs \<noteq> [] \<or> \<not> should_terminate cfg g (improvement r)"
  shows "\<not> should_terminate cfg g (improvement r)"
    and "trace_from cfg (g + 1) (adapt_mutation_rate cfg g (improvement r) rate) (Some (avg r))
           rs fin"
    and "mutation_rate r = rate"
  using assms by (cases "should_terminate cfg g (improvement r)"; simp)+

lemma trace_generation:
  "trace_from cfg g rate prev rs fin \<Longrightarrow> i < length rs \<Longrightarrow> generation (rs ! i) = g + int i"
proof (induction rs arbitrary: g rate prev i)
  case Nil
  then show ?case by simp
next
  case (Cons r rs)
  show ?case
  proof (cases i)
    case 0
    then show ?thesis using Cons.prems by simp
  next
    case (Suc j)
    with Cons.prems have j: "j < length rs" by simp
    then have "rs \<noteq> []" by auto
    then have "trace_from cfg (g + 1) (adapt_mutation_rate cfg g (improvement r) rate)
                 (Some (avg r)) rs fin"
      using trace_from_Cons_go(2) [OF Cons.prems(1)] by simp
    from Cons.IH [OF this j] show ?thesis using Suc by simp
  qed
qed

lemma trace_ceiling:
  "trace_from cfg g rate prev rs fin \<Longrightarrow> rs \<noteq> []
     \<Longrightarrow> g + int (length rs) \<le> maximum_generations cfg"
proof (induction rs arbitrary: g rate prev)
  case Nil
  then show ?case by simp
next
  case (Cons r rs)
  show ?case
  proof (cases "rs = []")
    case True
    then show ?thesis using Cons.prems by simp
  next
    case False
    then have "trace_from cfg (g + 1) (adapt_mutation_rate cfg g (improvement r) rate)
                 (Some (avg r)) rs fin"
      using trace_from_Cons_go(2) [OF Cons.prems(1)] by simp
    from Cons.IH [OF this False] show ?thesis by simp
  qed
qed

lemma trace_no_early_stop:
  "trace_from cfg g rate prev rs fin \<Longrightarrow> Suc i < length rs
     \<Longrightarrow> \<not> should_terminate cfg (g + int i) (improvement (rs ! i))"
proof (induction rs arbitrary: g rate prev i)
  case Nil
  then show ?case by simp
next
  case (Cons r rs)
  from Cons.prems(2) have ne: "rs \<noteq> []" by auto
  then have go: "\<not> should_terminate cfg g (improvement r)"
    and tr: "trace_from cfg (g + 1) (adapt_mutation_rate cfg g (improvement r) rate)
               (Some (avg r)) rs fin"
    using trace_from_Cons_go [OF Cons.prems(1)] by simp_all
  show ?case
  proof (cases i)
    case 0
    then show ?thesis using go by simp
  next
    case (Suc j)
    with Cons.prems(2) have "Suc j < length rs" by simp
    from Cons.IH [OF tr this] show ?thesis using Suc by (simp add: add.assoc)
  qed
qed

lemma trace_stop:
  "trace_from cfg g rate prev rs fin \<Longrightarrow> g + int (length rs) < maximum_generations cfg
     \<Longrightarrow> rs \<noteq> [] \<and> should_terminate cfg (g + int (length rs) - 1) (improvement (last rs))"
proof (induction rs arbitrary: g rate prev)
  case Nil
  then show ?case by simp
next
  case (Cons r rs)
  show ?case
  proof (cases "should_terminate cfg g (improvement r)")
    case True
    with Cons.prems(1) have "rs = []" by simp
    then show ?thesis using True by simp
  next
    case False
    then have tr:
      "trace_from cfg (g + 1) (adapt_mutation_rate cfg g (improvement r) rate) (Some (avg r)) rs fin"
      using trace_from_Cons_go(2) [OF Cons.prems(1)] by simp
    have "g + 1 + int (length rs) < maximum_generations cfg" using Cons.prems(2) by simp
    from Cons.IH [OF tr this] show ?thesis by (simp add: add.assoc)
  qed
qed

lemma trace_first:
  "trace_from cfg g rate prev rs fin \<Longrightarrow> rs \<noteq> []
     \<Longrightarrow> mutation_rate (hd rs) = rate
         \<and> improvement (hd rs) = improvement_percentage prev (avg (hd rs))"
  by (cases rs) simp_all

lemma trace_next:
  "trace_from cfg g rate prev rs fin \<Longrightarrow> Suc i < length rs
     \<Longrightarrow> mutation_rate (rs ! Suc i)
           = adapt_mutation_rate cfg (g + int i) (improvement (rs ! i)) (mutation_rate (rs ! i))
         \<and> improvement (rs ! Suc i)
           = improvement_percentage (Some (avg (rs ! i))) (avg (rs ! Suc i))"
proof (induction rs arbitrary: g rate prev i)
  case Nil
  then show ?case by simp
next
  case (Cons r rs)
  from Cons.prems(2) have ne: "rs \<noteq> []" by auto
  then have mr: "mutation_rate r = rate"
    and tr: "trace_from cfg (g + 1) (adapt_mutation_rate cfg g (improvement r) rate)
               (Some (avg r)) rs fin"
    using trace_from_Cons_go [OF Cons.prems(1)] by simp_all
  show ?case
  proof (cases i)
    case 0
    have "rs ! 0 = hd rs" using ne by (simp add: hd_conv_nth)
    then show ?thesis using trace_first [OF tr ne] 0 mr by simp
  next
    case (Suc j)
    with Cons.prems(2) have "Suc j < length rs" by simp
    from Cons.IH [OF tr this] show ?thesis using Suc by (simp add: add.assoc)
  qed
qed

lemma trace_final:
  "trace_from cfg g rate prev rs fin \<Longrightarrow>
     fin = (if rs = [] then rate
            else if should_terminate cfg (g + int (length rs) - 1) (improvement (last rs))
            then mutation_rate (last rs)
            else adapt_mutation_rate cfg (g + int (length rs) - 1) (improvement (last rs))
                   (mutation_rate (last rs)))"
proof (induction rs arbitrary: g rate prev)
  case Nil
  then show ?case by simp
next
  case (Cons r rs)
  show ?case
  proof (cases "should_terminate cfg g (improvement r)")
    case True
    with Cons.prems have "rs = []" "fin = rate" "mutation_rate r = rate" by simp_all
    then show ?thesis using True by simp
  next
    case False
    then have mr: "mutation_rate r = rate" and tr:
      "trace_from cfg (g + 1) (adapt_mutation_rate cfg g (improvement r) rate) (Some (avg r)) rs fin"
      using trace_from_Cons_go [OF Cons.prems] by simp_all
    show ?thesis
    proof (cases "rs = []")
      case True
      with tr have "fin = adapt_mutation_rate cfg g (improvement r) rate" by simp
      then show ?thesis using True False mr by simp
    next
      case ne: False
      from Cons.IH [OF tr] ne show ?thesis by (simp add: add.assoc)
    qed
  qed
qed

lemma adapt_mutation_rate_le:
  "0 \<le> rate \<Longrightarrow> 0 \<le> adapt_mutation_rate cfg g imp rate
                 \<and> adapt_mutation_rate cfg g imp rate \<le> rate"
  by (simp add: adapt_mutation_rate_def split: option.split)

lemma trace_rates_monotone:
  "trace_from cfg g rate prev rs fin \<Longrightarrow> 0 \<le> rate \<Longrightarrow>
     0 \<le> fin \<and> fin \<le> rate
     \<and> (\<forall>i < length rs. fin \<le> mutation_rate (rs ! i) \<and> mutation_rate (rs ! i) \<le> rate)
     \<and> (\<forall>i j. i \<le> j \<and> j < length rs \<longrightarrow> mutation_rate (rs ! j) \<le> mutation_rate (rs ! i))"
proof (induction rs arbitrary: g rate prev)
  case Nil
  then show ?case by simp
next
  case (Cons r rs)
  from Cons.prems(1) have mr: "mutation_rate r = rate" by simp
  show ?case
  proof (cases "should_terminate cfg g (improvement r)")
    case True
    with Cons.prems(1) have "rs = []" "fin = rate" by simp_all
    then show ?thesis using mr Cons.prems(2) by simp
  next
    case False
    let ?rate' = "adapt_mutation_rate cfg g (improvement r) rate"
    from False have tr: "trace_from cfg (g + 1) ?rate' (Some (avg r)) rs fin"
      using trace_from_Cons_go(2) [OF Cons.prems(1)] by simp
    have r': "0 \<le> ?rate'" "?rate' \<le> rate"
      using adapt_mutation_rate_le [OF Cons.prems(2)] by simp_all
    note IH = Cons.IH [OF tr r'(1)]
    from IH have f0: "0 \<le> fin" and f1: "fin \<le> ?rate'" by simp_all
    from IH have each: "\<forall>i < length rs. fin \<le> mutation_rate (rs ! i)
                                        \<and> mutation_rate (rs ! i) \<le> ?rate'" by blast
    from IH have pairs: "\<forall>i j. i \<le> j \<and> j < length rs
                           \<longrightarrow> mutation_rate (rs ! j) \<le> mutation_rate (rs ! i)" by blast
    have e: "fin \<le> mutation_rate ((r # rs) ! i) \<and> mutation_rate ((r # rs) ! i) \<le> rate"
      if "i < length (r # rs)" for i
    proof (cases i)
      case 0
      then show ?thesis using mr f1 r'(2) by simp
    next
      case (Suc k)
      with that have "k < length rs" by simp
      with each have "fin \<le> mutation_rate (rs ! k)" "mutation_rate (rs ! k) \<le> ?rate'"
        by simp_all
      then show ?thesis using Suc r'(2) by simp
    qed
    have p: "mutation_rate ((r # rs) ! j) \<le> mutation_rate ((r # rs) ! i)"
      if "i \<le> j" "j < length (r # rs)" for i j
    proof (cases i)
      case 0
      then show ?thesis using e [OF that(2)] mr by simp
    next
      case (Suc k)
      with that obtain l where l: "j = Suc l" "k \<le> l" "l < length rs"
        by (cases j) simp_all
      with pairs have "mutation_rate (rs ! l) \<le> mutation_rate (rs ! k)" by blast
      then show ?thesis using Suc l by simp
    qed
    have "fin \<le> rate" using f1 r'(2) by simp
    with f0 e p show ?thesis by blast
  qed
qed

subsection \<open>Configuration errors\<close>

lemma reproduction_loop_fallback:
  "method \<noteq> ''uniform'' \<Longrightarrow>
     reproduction_loop method rate pairs h g = reproduction_loop ''single_point'' rate pairs h g"
proof (induction pairs arbitrary: h g)
  case Nil
  show ?case by simp
next
  case (Cons p pairs)
  obtain pa pb where p: "p = (pa, pb)" by (cases p)
  show ?case
  proof (cases "perform_single_point_crossover pa pb h g")
    case (Inl e)
    then show ?thesis using Cons.prems by (simp add: p)
  next
    case (Inr x)
    obtain child h1 g1 where x: "x = (child, h1, g1)" by (cases x)
    show ?thesis
    proof (cases "apply_mutation child rate h1 g1")
      case (Inl e)
      then show ?thesis using Cons.prems Inr x by (simp add: p)
    next
      case m: (Inr y)
      obtain mutated h2 g2 where y: "y = (mutated, h2, g2)" by (cases y)
      show ?thesis
        using Cons.prems Inr x m y Cons.IH [OF Cons.prems, of h2 g2] by (simp add: p)
    qed
  qed
qed

lemma reproduce_generation_fallback:
  "crossover_method cfg \<noteq> ''uniform'' \<Longrightarrow>
     reproduce_generation (cfg\<lparr>crossover_method := ''single_point''\<rparr>) gen imp scores st
       = reproduce_generation cfg gen imp scores st"
  by (simp add: reproduce_generation_def adapt_mutation_rate_def
      reproduction_loop_fallback [of "crossover_method cfg"])

lemma evolution_loop_fallback:
  assumes "crossover_method cfg \<noteq> ''uniform''"
  shows "evolution_loop hs (cfg\<lparr>crossover_method := ''single_point''\<rparr>) gen st
           = evolution_loop hs cfg gen st"
proof (induction "nat (maximum_generations cfg - gen)" arbitrary: gen st rule: less_induct)
  case less
  let ?cfg' = "cfg\<lparr>crossover_method := ''single_point''\<rparr>"
  show ?case
  proof (cases "gen < maximum_generations cfg")
    case False
    then show ?thesis
      by (simp add: evolution_loop.simps [of hs cfg gen st]
          evolution_loop.simps [of hs ?cfg' gen st])
  next
    case True
    then have smaller: "nat (maximum_generations cfg - (gen + 1)) < nat (maximum_generations cfg - gen)"
      by simp
    have st: "should_terminate ?cfg' gen imp = should_terminate cfg gen imp" for imp
      by (simp add: should_terminate_def)
    show ?thesis
      using True
      by (simp add: evolution_loop.simps [of hs cfg gen st]
          evolution_loop.simps [of hs ?cfg' gen st] st
          reproduce_generation_fallback [OF assms] less.hyps [OF smaller]
          split: sum.split prod.split)
  qed
qed

lemma run_optimization_fallback:
  assumes "crossover_method cfg \<noteq> ''uniform''"
  shows "run_optimization hs (cfg\<lparr>crossover_method := ''single_point''\<rparr>) cache h g
           = run_optimization hs cfg cache h g"
  by (simp add: run_optimization_def evolution_loop_fallback [OF assms])

lemma run_optimization_isl:
  "isl (run_optimization hs cfg cache h g) = (population_size cfg < 250)"
proof (cases "population_size cfg < 250")
  case True
  then show ?thesis by (simp add: run_optimization_small)
next
  case False
  then have "250 \<le> population_size cfg" by simp
  from run_optimization_trace [OF this, of hs cache h g] obtain res where
    "run_optimization hs cfg cache h g = Inr res" by blast
  then show ?thesis using False by simp
qed

text \<open>
  Claim C2 says that \<^verbatim>\<open>run_optimization\<close> raises a configuration error when the population
  is below the minimum, when \<open>elitism_count \<ge> population_size\<close>, or when the crossover
  method is not one of the two. With 250 schedules, 250 elites and the method
  \<^verbatim>\<open>two_point\<close> it returns a result.
\<close>

theorem run_optimization_accepts_unchecked_config:
  "population_size unchecked_config \<le> elitism_count unchecked_config
   \<and> crossover_method unchecked_config \<notin> {''single_point'', ''uniform''}
   \<and> \<not> isl (run_optimization (\<lambda>x. x) unchecked_config Map.empty example_heap (sconst 0))"
  by (simp add: run_optimization_isl) (simp add: unchecked_config_def default_config_def)

text \<open>
  Claim C2, amended. \<^verbatim>\<open>run_optimization\<close> raises exactly when the population size is below
  250: the error is the \<^verbatim>\<open>ValueError\<close> of \<^verbatim>\<open>create_initial_population\<close>, raised before the
  loop. The elitism count is not checked. A crossover method other than \<^verbatim>\<open>uniform\<close> is
  taken as \<^verbatim>\<open>single_point\<close>.
\<close>

theorem configuration_error_is_population_size:
  "isl (run_optimization hs cfg cache h g) = (population_size cfg < 250)
   \<and> (population_size cfg < 250 \<longrightarrow>
        create_initial_population (population_size cfg) h g = Inl ValueError
        \<and> run_optimization hs cfg cache h g = Inl ValueError)
   \<and> (crossover_method cfg \<noteq> ''uniform'' \<longrightarrow>
        run_optimization hs cfg cache h g
          = run_optimization hs (cfg\<lparr>crossover_method := ''single_point''\<rparr>) cache h g)"
  using run_optimization_isl [of hs cfg cache h g] run_optimization_small [of cfg hs cache h g]
    create_initial_population_small [of cfg h g] run_optimization_fallback [of cfg hs cache h g]
  by simp

theorem configuration_error_is_population_size_witness:
  "population_size small_config < 250
   \<and> crossover_method small_config \<noteq> ''uniform''
   \<and> isl (run_optimization (\<lambda>x. x) small_config Map.empty example_heap (sconst 0))
   \<and> run_optimization (\<lambda>x. x) small_config Map.empty example_heap (sconst 0) = Inl ValueError
   \<and> run_optimization (\<lambda>x. x) small_config Map.empty example_heap (sconst 0)
       = run_optimization (\<lambda>x. x) (small_config\<lparr>crossover_method := ''single_point''\<rparr>)
           Map.empty example_heap (sconst 0)"
proof -
  have a: "population_size small_config < 250" "crossover_method small_config \<noteq> ''uniform''"
    by (simp_all add: small_config_def default_config_def)
  note t = configuration_error_is_population_size
    [of "\<lambda>x. x" small_config Map.empty example_heap "sconst 0"]
  from t a have f1: "isl (run_optimization (\<lambda>x. x) small_config Map.empty example_heap (sconst 0))"
    by blast
  from t a have f2: "run_optimization (\<lambda>x. x) small_config Map.empty example_heap (sconst 0)
                       = Inl ValueError"
    by blast
  from t a have f3: "run_optimization (\<lambda>x. x) small_config Map.empty example_heap (sconst 0)
       = run_optimization (\<lambda>x. x) (small_config\<lparr>crossover_method := ''single_point''\<rparr>)
           Map.empty example_heap (sconst 0)"
    by blast
  from a f1 f2 f3 show ?thesis by (intro conjI)
qed

subsection \<open>Termination of the loop\<close>

lemma should_terminate_iff:
  "should_terminate cfg gen imp
     = (minimum_generations cfg \<le> gen + 1 \<and> (\<exists>x. imp = Some x \<and> x < 1))"
  by (cases imp) (simp_all add: should_terminate_def)

lemma adapt_mutation_rate_iff:
  "adapt_mutation_rate cfg gen imp rate
     = (if use_adaptive_mutation cfg \<and> 0 < gen \<and> gen mod 20 = 0
           \<and> (\<exists>x. imp = Some x \<and> x > 0.1)
        then rate / 2 else rate)"
  by (cases imp) (simp_all add: adapt_mutation_rate_def)

text \<open>
  Claim C4. With a population of at least 250 the run returns, and its history has one
  record per generation run, numbered from 0. The improvement is unset in the first record
  and is the percentage computed from the two averages in every later one. The plateau rule
  (the number of completed generations is at least \<open>minimum_generations\<close>, the improvement
  is defined and below 1) holds for no record but the last, so the loop stops at the first
  generation where it holds; when the run ends below \<open>maximum_generations\<close>, the rule holds
  for the last record, so that at least \<open>minimum_generations\<close> generations were run. The
  number of generations never exceeds \<open>maximum_generations\<close> (it is 0 when that is
  negative).
\<close>

theorem plateau_termination:
  assumes "250 \<le> population_size cfg"
  shows "\<exists>res. run_optimization hs cfg cache h g = Inr res
           \<and> generations_run res = int (length (history res))
           \<and> (\<forall>i < length (history res). generation (history res ! i) = int i)
           \<and> (history res \<noteq> [] \<longrightarrow> improvement (hd (history res)) = None)
           \<and> (\<forall>i. Suc i < length (history res) \<longrightarrow>
                  improvement (history res ! Suc i)
                    = improvement_percentage (Some (avg (history res ! i)))
                        (avg (history res ! Suc i)))
           \<and> (\<forall>i. Suc i < length (history res) \<longrightarrow>
                  \<not> (minimum_generations cfg \<le> int i + 1
                     \<and> (\<exists>x. improvement (history res ! i) = Some x \<and> x < 1)))
           \<and> (generations_run res < maximum_generations cfg \<longrightarrow>
                  history res \<noteq> []
                  \<and> minimum_generations cfg \<le> generations_run res
                  \<and> (\<exists>x. improvement (last (history res)) = Some x \<and> x < 1))
           \<and> generations_run res \<le> max 0 (maximum_generations cfg)"
proof -
  from run_optimization_trace [OF assms, of hs cache h g] obtain res where
    r: "run_optimization hs cfg cache h g = Inr res"
    and tr: "trace_from cfg 0 (initial_mutation_probability cfg) None (history res)
               (final_mutation_rate res)"
    and gr: "generations_run res = int (length (history res))"
    by blast
  have c1: "\<forall>i < length (history res). generation (history res ! i) = int i"
    using trace_generation [OF tr] by simp
  have c2: "history res \<noteq> [] \<longrightarrow> improvement (hd (history res)) = None"
    using trace_first [OF tr] by (simp add: improvement_percentage_def)
  have c3: "\<forall>i. Suc i < length (history res) \<longrightarrow>
                  improvement (history res ! Suc i)
                    = improvement_percentage (Some (avg (history res ! i)))
                        (avg (history res ! Suc i))"
    using trace_next [OF tr] by simp
  have c4: "\<forall>i. Suc i < length (history res) \<longrightarrow>
                  \<not> (minimum_generations cfg \<le> int i + 1
                     \<and> (\<exists>x. improvement (history res ! i) = Some x \<and> x < 1))"
    using trace_no_early_stop [OF tr] by (simp add: should_terminate_iff)
  have c5: "generations_run res < maximum_generations cfg \<longrightarrow>
                  history res \<noteq> []
                  \<and> minimum_generations cfg \<le> generations_run res
                  \<and> (\<exists>x. improvement (last (history res)) = Some x \<and> x < 1)"
  proof
    assume "generations_run res < maximum_generations cfg"
    then have "0 + int (length (history res)) < maximum_generations cfg" using gr by simp
    from trace_stop [OF tr this] show "history res \<noteq> []
                  \<and> minimum_generations cfg \<le> generations_run res
                  \<and> (\<exists>x. improvement (last (history res)) = Some x \<and> x < 1)"
      using gr by (simp add: should_terminate_iff)
  qed
  have c6: "generations_run res \<le> max 0 (maximum_generations cfg)"
  proof (cases "history res = []")
    case True
    then show ?thesis using gr by simp
  next
    case False
    from trace_ceiling [OF tr False] show ?thesis using gr by simp
  qed
  from r gr c1 c2 c3 c4 c5 c6 show ?thesis by blast
qed

theorem plateau_termination_witness:
  "250 \<le> population_size default_config
   \<and> (\<exists>res. run_optimization (\<lambda>x. x) default_config Map.empty example_heap (sconst 0) = Inr res
         \<and> 100 \<le> generations_run res \<and> generations_run res \<le> 500)"
proof -
  have a: "250 \<le> population_size default_config" by (simp add: default_config_def)
  from plateau_termination [OF a, of "\<lambda>x. x" Map.empty example_heap "sconst 0"]
  obtain res where
    r: "run_optimization (\<lambda>x. x) default_config Map.empty example_heap (sconst 0) = Inr res"
    and stop: "generations_run res < maximum_generations default_config \<longrightarrow>
                  history res \<noteq> []
                  \<and> minimum_generations default_config \<le> generations_run res
                  \<and> (\<exists>x. improvement (last (history res)) = Some x \<and> x < 1)"
    and ceil: "generations_run res \<le> max 0 (maximum_generations default_config)"
    by blast
  have "100 \<le> generations_run res"
    using stop by (cases "generations_run res < 500") (simp_all add: default_config_def)
  moreover have "generations_run res \<le> 500"
    using ceil by (simp add: default_config_def)
  ultimately show ?thesis using a r by blast
qed

subsection \<open>The mutation rate\<close>

text \<open>
  Claim C8. For a mutation probability that is not negative (the interface gives it the
  range from 0 to 1): the first record has the initial rate; the rate of the record after
  generation \<open>i\<close> is half the rate of generation \<open>i\<close> when adaptive mutation is enabled,
  \<open>i > 0\<close>, \<open>i\<close> is divisible by 20 and the improvement of generation \<open>i\<close> is defined
  and above 0.1, and is the same rate otherwise; the rates of the history never increase,
  and the final rate is the last rate or its half, at most every rate of the history.
\<close>

theorem mutation_rate_never_increases:
  assumes "250 \<le> population_size cfg" and "0 \<le> initial_mutation_probability cfg"
  shows "\<exists>res. run_optimization hs cfg cache h g = Inr res
           \<and> (history res \<noteq> [] \<longrightarrow>
                 mutation_rate (hd (history res)) = initial_mutation_probability cfg)
           \<and> (\<forall>i. Suc i < length (history res) \<longrightarrow>
                 mutation_rate (history res ! Suc i)
                   = (if use_adaptive_mutation cfg \<and> 0 < i \<and> i mod 20 = 0
                         \<and> (\<exists>x. improvement (history res ! i) = Some x \<and> x > 0.1)
                      then mutation_rate (history res ! i) / 2
                      else mutation_rate (history res ! i)))
           \<and> (\<forall>i j. i \<le> j \<and> j < length (history res) \<longrightarrow>
                 mutation_rate (history res ! j) \<le> mutation_rate (history res ! i))
           \<and> (\<forall>i < length (history res).
                 final_mutation_rate res \<le> mutation_rate (history res ! i))
           \<and> final_mutation_rate res \<le> initial_mutation_probability cfg
           \<and> (history res \<noteq> [] \<longrightarrow>
                 final_mutation_rate res = mutation_rate (last (history res))
                 \<or> final_mutation_rate res = mutation_rate (last (history res)) / 2)"
proof -
  from run_optimization_trace [OF assms(1), of hs cache h g] obtain res where
    r: "run_optimization hs cfg cache h g = Inr res"
    and tr: "trace_from cfg 0 (initial_mutation_probability cfg) None (history res)
               (final_mutation_rate res)"
    by blast
  have c1: "history res \<noteq> [] \<longrightarrow>
              mutation_rate (hd (history res)) = initial_mutation_probability cfg"
    using trace_first [OF tr] by simp
  have c2: "\<forall>i. Suc i < length (history res) \<longrightarrow>
                 mutation_rate (history res ! Suc i)
                   = (if use_adaptive_mutation cfg \<and> 0 < i \<and> i mod 20 = 0
                         \<and> (\<exists>x. improvement (history res ! i) = Some x \<and> x > 0.1)
                      then mutation_rate (history res ! i) / 2
                      else mutation_rate (history res ! i))"
  proof (intro allI impI)
    fix i assume i: "Suc i < length (history res)"
    have m: "(int i mod 20 = 0) = (i mod 20 = 0)"
      by (metis int_ops(1) of_nat_eq_iff of_nat_numeral zmod_int)
    from trace_next [OF tr i] show
      "mutation_rate (history res ! Suc i)
         = (if use_adaptive_mutation cfg \<and> 0 < i \<and> i mod 20 = 0
               \<and> (\<exists>x. improvement (history res ! i) = Some x \<and> x > 0.1)
            then mutation_rate (history res ! i) / 2
            else mutation_rate (history res ! i))"
      by (simp add: adapt_mutation_rate_iff m)
  qed
  note mono = trace_rates_monotone [OF tr assms(2)]
  from mono have c3: "\<forall>i j. i \<le> j \<and> j < length (history res) \<longrightarrow>
                 mutation_rate (history res ! j) \<le> mutation_rate (history res ! i)"
    by blast
  from mono have c4: "\<forall>i < length (history res).
                 final_mutation_rate res \<le> mutation_rate (history res ! i)"
    by blast
  from mono have c5: "final_mutation_rate res \<le> initial_mutation_probability cfg"
    by blast
  have c6: "history res \<noteq> [] \<longrightarrow>
                 final_mutation_rate res = mutation_rate (last (history res))
                 \<or> final_mutation_rate res = mutation_rate (last (history res)) / 2"
    using trace_final [OF tr] by (simp add: adapt_mutation_rate_iff split: if_splits)
  from r c1 c2 c3 c4 c5 c6 show ?thesis by blast
qed

theorem mutation_rate_never_increases_witness:
  "250 \<le> population_size default_config
   \<and> 0 \<le> initial_mutation_probability default_config
   \<and> (\<exists>res. run_optimization (\<lambda>x. x) default_config Map.empty example_heap (sconst 0) = Inr res
         \<and> final_mutation_rate res \<le> 1 / 100)"
proof -
  have a: "250 \<le> population_size default_config"
    "0 \<le> initial_mutation_probability default_config"
    by (simp_all add: default_config_def)
  from mutation_rate_never_increases [OF a, of "\<lambda>x. x" Map.empty example_heap "sconst 0"]
  obtain res where
    "run_optimization (\<lambda>x. x) default_config Map.empty example_heap (sconst 0) = Inr res"
    "final_mutation_rate res \<le> initial_mutation_probability default_config"
    by blast
  then show ?thesis using a by (auto simp: default_config_def)
qed

subsection \<open>The size of the population\<close>

lemma example_state_ok: "population_ok default_config (current_population example_state)"
  by (simp add: population_ok_def example_state_def default_config_def
      example_schedule_complete)

text \<open>
  Claim C7. The population has the configured size, with complete schedules, from the
  initial population on: the evaluation of a generation keeps this, and the assembly of the
  next generation (elites first, then offspring, cut or filled) gives a population of
  exactly \<open>population_size\<close> schedules again, whatever the elitism count is, so in
  particular when it is below the population size. The population at the end of a run has
  this size.
\<close>

theorem population_size_is_kept:
  "(250 \<le> population_size cfg \<longrightarrow>
      (\<exists>population h' g'.
         create_initial_population (population_size cfg) h g = Inr (population, h', g')
         \<and> population_ok cfg population))
   \<and> (population_ok cfg (current_population st) \<longrightarrow>
      (\<exists>st1 scores imp.
         evaluate_generation hs gen st = Inr (st1, scores, imp)
         \<and> population_ok cfg (current_population st1)
         \<and> length scores = length (current_population st1)))
   \<and> (population_ok cfg (current_population st) \<and> 0 < population_size cfg
        \<and> length fitness_scores = length (current_population st) \<longrightarrow>
      (\<exists>st'.
         reproduce_generation cfg gen improvement_now fitness_scores st = Inr st'
         \<and> int (length (current_population st')) = population_size cfg
         \<and> population_ok cfg (current_population st')))
   \<and> (250 \<le> population_size cfg \<longrightarrow>
      (\<exists>res. run_optimization hs cfg cache h g = Inr res
         \<and> int (length (final_population res)) = population_size cfg))"
proof (intro conjI impI)
  assume "250 \<le> population_size cfg"
  then show "\<exists>population h' g'.
         create_initial_population (population_size cfg) h g = Inr (population, h', g')
         \<and> population_ok cfg population"
    by (rule create_initial_population_ok)
next
  assume "population_ok cfg (current_population st)"
  from evaluate_generation_ok [OF this, of hs gen]
  show "\<exists>st1 scores imp.
         evaluate_generation hs gen st = Inr (st1, scores, imp)
         \<and> population_ok cfg (current_population st1)
         \<and> length scores = length (current_population st1)"
    by blast
next
  assume a: "population_ok cfg (current_population st) \<and> 0 < population_size cfg
        \<and> length fitness_scores = length (current_population st)"
  then have "\<exists>st'. reproduce_generation cfg gen improvement_now fitness_scores st = Inr st'
           \<and> population_ok cfg (current_population st')"
    using reproduce_generation_ok [of cfg st fitness_scores gen improvement_now] by blast
  then show "\<exists>st'.
         reproduce_generation cfg gen improvement_now fitness_scores st = Inr st'
         \<and> int (length (current_population st')) = population_size cfg
         \<and> population_ok cfg (current_population st')"
    by (auto simp: population_ok_def)
next
  assume "250 \<le> population_size cfg"
  from run_optimization_trace [OF this, of hs cache h g]
  show "\<exists>res. run_optimization hs cfg cache h g = Inr res
         \<and> int (length (final_population res)) = population_size cfg"
    by blast
qed

theorem population_size_is_kept_witness:
  "250 \<le> population_size default_config
   \<and> 0 < population_size default_config
   \<and> length (replicate 250 (0::real)) = length (current_population example_state)
   \<and> elitism_count default_config < population_size default_config
   \<and> (\<exists>st'. reproduce_generation default_config 0 None (replicate 250 0) example_state = Inr st'
          \<and> int (length (current_population st')) = 250)"
proof -
  have a: "250 \<le> population_size default_config" "0 < population_size default_config"
    "elitism_count default_config < population_size default_config"
    "population_size default_config = 250"
    by (simp_all add: default_config_def)
  have l: "length (replicate 250 (0::real)) = length (current_population example_state)"
    by (simp add: example_state_def)
  note t = population_size_is_kept
    [of default_config example_heap "sconst 0" example_state "\<lambda>x. x" 0 "replicate 250 0" None
        Map.empty]
  from t example_state_ok a(2) l
  have "\<exists>st'. reproduce_generation default_config 0 None (replicate 250 0) example_state = Inr st'
          \<and> int (length (current_population st')) = population_size default_config"
    by blast
  then have "\<exists>st'. reproduce_generation default_config 0 None (replicate 250 0) example_state = Inr st'
          \<and> int (length (current_population st')) = 250"
    by (simp only: a(4))
  then show ?thesis using a(1,2,3) l by blast
qed

subsection \<open>The selection weights\<close>




end
